theory Spec2Isabelle
  imports Main "HOL-Library.AList" "HOL-Library.Sublist"
begin

section \<open>Values shared by the task runners\<close>

text \<open>
  A run key is a UUID. Python dictionaries keep their insertion order, so every
  dictionary of the runners is an association list: \<open>d[k] = v\<close> is
  \<open>AList.update k v d\<close> (replace in place, or append), \<open>d[k]\<close> is
  \<open>map_of d k\<close> with \<open>None\<close> raising \<open>KeyError\<close>, and \<open>k in d\<close> is
  \<open>map_of d k \<noteq> None\<close>.
\<close>

type_synonym uuid = nat

datatype exc = Exc (exc_type: string) (exc_message: string)

text \<open>Modelled from the spec: the Outcome type \<open>State\<close> of
  \<open>prefect.client.schemas.objects\<close> is not among the sources. The spec describes it as
  an immutable terminal value that is a success, a failure, or crashed; a crashed
  Outcome records the fault it was converted from.\<close>

datatype state = Completed string | Failed string | Crashed exc

fun is_crashed :: "state \<Rightarrow> bool" where
  "is_crashed (Crashed _) = True"
| "is_crashed _ = False"

text \<open>Modelled from the spec: \<open>exception_to_crashed_state\<close> of \<open>prefect.states\<close> is not
  among the sources. The spec has it convert a fault raised during execution into a
  crashed Outcome.\<close>

definition exception_to_crashed_state :: "exc \<Rightarrow> state" where
  "exception_to_crashed_state e = Crashed e"

text \<open>
  A submitted callable takes no argument; calling it either raises (\<open>Inl\<close>) or returns
  a terminal state (\<open>Inr\<close>).
\<close>

type_synonym call = "unit \<Rightarrow> exc + state"

datatype error = RuntimeError string | KeyError uuid | TypeError string | NotImplementedError

text \<open>The sentinel \<open>NotImplemented\<close> that \<open>duplicate\<close> and \<open>__eq__\<close> may return.\<close>

datatype 'a or_not_implemented = NotImplemented | Value 'a

datatype TaskConcurrencyType = SEQUENTIAL | CONCURRENT | PARALLEL

text \<open>
  The result of a blocking call, read at one moment: the call is still blocked, it has
  raised, or it has returned.
\<close>

datatype 'a awaited = Blocked | Raised error | Returned 'a

text \<open>
  Time is counted in ticks. \<open>timeout\<close> is the argument of \<open>wait\<close> (\<open>None\<close>: no
  timeout); \<open>waited\<close> is how long the caller has been suspended.
\<close>

definition expired :: "nat option \<Rightarrow> nat \<Rightarrow> bool" where
  "expired timeout waited = (case timeout of None \<Rightarrow> False | Some t \<Rightarrow> t \<le> waited)"

text \<open>A list without its \<open>i\<close>-th element.\<close>

definition remove_nth :: "nat \<Rightarrow> 'a list \<Rightarrow> 'a list" where
  "remove_nth i xs = take i xs @ drop (Suc i) xs"

section \<open>BaseTaskRunner\<close>

definition lower_char :: "char \<Rightarrow> char" where
  "lower_char c =
     (let n = (of_char c :: nat) in if 65 \<le> n \<and> n \<le> 90 then char_of (n + 32) else c)"

definition lower :: "string \<Rightarrow> string" where
  "lower s = map lower_char s"

function replace :: "string \<Rightarrow> string \<Rightarrow> string \<Rightarrow> string" where
  "replace s old new =
     (if old = [] then new @ concat (map (\<lambda>c. c # new) s)
      else if s = [] then []
      else if prefix old s then new @ replace (drop (length old) s) old new
      else hd s # replace (tl s) old new)"
  by pat_completeness auto
termination
  by (relation "measure (\<lambda>(s, old, new). length s)") (auto simp: neq_Nil_conv)

text \<open>\<open>type(self).__name__.lower().replace("taskrunner", "")\<close>\<close>

definition name :: "string \<Rightarrow> string" where
  "name type_name = replace (lower type_name) ''taskrunner'' ''''"

record base_task_runner =
  logger :: string
  started :: bool

text \<open>
  \<open>__init__\<close>: the logger is the one registered under \<open>task_runner.\<close> followed by
  the name; a logger is identified by the name it is registered under.
\<close>

definition base_init :: "string \<Rightarrow> base_task_runner" where
  "base_init type_name = \<lparr>logger = ''task_runner.'' @ name type_name, started = False\<rparr>"

text \<open>
  \<open>start\<close> and \<open>start_sync\<close> up to their \<open>yield\<close>; the hook is the \<open>_start\<close> or
  \<open>_start_sync\<close> of the subclass. A raise is returned with the runner as it is at the
  raise.
\<close>

definition start ::
  "('a base_task_runner_scheme \<Rightarrow> 'a base_task_runner_scheme) \<Rightarrow>
   'a base_task_runner_scheme \<Rightarrow>
   error \<times> 'a base_task_runner_scheme + 'a base_task_runner_scheme" where
  "start start_hook self =
     (if started self then Inl (RuntimeError ''The task runner is already started!'', self)
      else Inr ((start_hook self)\<lparr>started := True\<rparr>))"

text \<open>The \<open>finally\<close> block of \<open>start\<close> and \<open>start_sync\<close>.\<close>

definition start_finally :: "'a base_task_runner_scheme \<Rightarrow> 'a base_task_runner_scheme" where
  "start_finally self = self\<lparr>started := False\<rparr>"

text \<open>\<open>_start\<close> and \<open>_start_sync\<close> of the base class do nothing.\<close>

definition base_start_hook :: "'a base_task_runner_scheme \<Rightarrow> 'a base_task_runner_scheme" where
  "base_start_hook self = self"

text \<open>
  An object as \<open>__eq__\<close> and the base \<open>duplicate\<close> see it: its type and its \<open>__dict__\<close>.
\<close>

datatype task_group = TaskGroup (active: bool) (children: "(uuid \<times> call) list")

datatype executor = ThreadPoolExecutor (shutdown: bool) (work_queue: "(nat \<times> uuid \<times> call) list")

datatype attr =
    ALogger string
  | ABool bool
  | AStr string
  | AInt int
  | AStates "(uuid \<times> state) list"
  | AEvents "(uuid \<times> bool) list"
  | AKeys "uuid set"
  | ATaskGroup "task_group option"
  | AExecutor "executor option"
  | AFutures "(uuid \<times> nat) list"

datatype obj = Obj (type_of: string) (dict_of: "(string \<times> attr) list")

text \<open>\<open>{k: v for k, v in d.items() if not k.startswith("_")}\<close>\<close>

definition public :: "(string \<times> attr) list \<Rightarrow> (string \<times> attr) list" where
  "public d = filter (\<lambda>(k, v). \<not> prefix ''_'' k) d"

text \<open>Equality of two dictionaries: the same number of items, and every item of the
  first is an item of the second.\<close>

definition dict_eq :: "('k \<times> 'v) list \<Rightarrow> ('k \<times> 'v) list \<Rightarrow> bool" where
  "dict_eq a b = (length a = length b \<and> (\<forall>(k, v) \<in> set a. map_of b k = Some v))"

definition eq :: "obj \<Rightarrow> obj \<Rightarrow> bool or_not_implemented" where
  "eq self other =
     (if type_of other = type_of self \<and> dict_eq (public (dict_of self)) (public (dict_of other))
      then Value True
      else NotImplemented)"

definition base_duplicate :: "obj \<Rightarrow> obj or_not_implemented" where
  "base_duplicate self = NotImplemented"

definition base_submit_sync :: "'a base_task_runner_scheme \<Rightarrow> uuid \<Rightarrow> call \<Rightarrow> error" where
  "base_submit_sync self key call = NotImplementedError"

section \<open>SequentialTaskRunner\<close>

record sequential_task_runner = base_task_runner +
  seq_results :: "(uuid \<times> state) list"

definition sequential_init :: sequential_task_runner where
  "sequential_init =
     (let super = base_init ''SequentialTaskRunner''
      in \<lparr>logger = logger super, started = started super, seq_results = []\<rparr>)"

definition sequential_concurrency_type :: "sequential_task_runner \<Rightarrow> TaskConcurrencyType" where
  "sequential_concurrency_type self = SEQUENTIAL"

definition sequential_duplicate :: "sequential_task_runner \<Rightarrow> sequential_task_runner" where
  "sequential_duplicate self = sequential_init"

definition sequential_submit ::
  "sequential_task_runner \<Rightarrow> uuid \<Rightarrow> call \<Rightarrow> sequential_task_runner" where
  "sequential_submit self key call =
     (let result = (case call () of Inr r \<Rightarrow> r | Inl e \<Rightarrow> exception_to_crashed_state e)
      in self\<lparr>seq_results := AList.update key result (seq_results self)\<rparr>)"

definition sequential_wait ::
  "sequential_task_runner \<Rightarrow> uuid \<Rightarrow> nat option \<Rightarrow> error + state option" where
  "sequential_wait self key timeout =
     (case map_of (seq_results self) key of
        None \<Rightarrow> Inl (KeyError key)
      | Some r \<Rightarrow> Inr (Some r))"

definition sequential_obj :: "sequential_task_runner \<Rightarrow> obj" where
  "sequential_obj self =
     Obj ''SequentialTaskRunner''
       [(''logger'', ALogger (logger self)),
        (''_started'', ABool (started self)),
        (''_results'', AStates (seq_results self))]"

text \<open>
  \<open>submit\<close> is a coroutine that assigns nothing before \<open>await call()\<close> and writes the
  Result Table after it. While one call is awaited the caller's event loop may start
  other submits, so several may be awaiting their calls; the effect of \<open>submit\<close> takes
  place when its call completes, on the runner as it is then. The world of a
  Sequential runner is the runner and the submits that await their calls.
\<close>

record sequential_world =
  seq_self :: sequential_task_runner
  awaiting :: "(uuid \<times> call) list"

datatype sequential_event = SubmitCalled uuid call | CallCompletes nat

fun sequential_step :: "sequential_world \<Rightarrow> sequential_event \<Rightarrow> sequential_world option" where
  "sequential_step w (SubmitCalled key call) =
     Some (w\<lparr>awaiting := awaiting w @ [(key, call)]\<rparr>)"
| "sequential_step w (CallCompletes i) =
     (if i < length (awaiting w) then
        (let (key, call) = awaiting w ! i
         in Some \<lparr>seq_self = sequential_submit (seq_self w) key call,
                  awaiting = remove_nth i (awaiting w)\<rparr>)
      else None)"

fun sequential_exec ::
  "sequential_world \<Rightarrow> sequential_event list \<Rightarrow> sequential_world option" where
  "sequential_exec w [] = Some w"
| "sequential_exec w (e # es) =
     (case sequential_step w e of None \<Rightarrow> None | Some w' \<Rightarrow> sequential_exec w' es)"

text \<open>The calls of a run in the order in which they complete, given those awaited at
  its start.\<close>

fun completions :: "(uuid \<times> call) list \<Rightarrow> sequential_event list \<Rightarrow> (uuid \<times> call) list" where
  "completions aw [] = []"
| "completions aw (SubmitCalled key call # es) = completions (aw @ [(key, call)]) es"
| "completions aw (CallCompletes i # es) =
     (if i < length aw then aw ! i # completions (remove_nth i aw) es else [])"

text \<open>The run in which every \<open>submit\<close> is awaited before the next is made.\<close>

fun awaited_in_turn :: "(uuid \<times> call) list \<Rightarrow> sequential_event list" where
  "awaited_in_turn [] = []"
| "awaited_in_turn ((key, call) # rest) =
     SubmitCalled key call # CallCompletes 0 # awaited_in_turn rest"

section \<open>ConcurrentTaskRunner\<close>

text \<open>
  The task group holds the child tasks that were started and have not finished; the
  executor holds the work items that no worker has finished, each with the address of
  its \<open>Future\<close>. A \<open>Future\<close> is shared by the executor and the \<open>_futures\<close>
  dictionary, so the futures live in a heap: \<open>heap ! a\<close> tells whether the future at
  address \<open>a\<close> is done. A completion \<open>Event\<close> is reached through the dictionary
  only and is kept there by value: \<open>True\<close> when it is set.
\<close>

record concurrent_task_runner = base_task_runner +
  task_group :: "task_group option"
  result_events :: "(uuid \<times> bool) list"
  results :: "(uuid \<times> state) list"
  keys :: "uuid set"
  executor :: "executor option"
  futures :: "(uuid \<times> nat) list"

definition concurrent_init :: concurrent_task_runner where
  "concurrent_init =
     (let super = base_init ''ConcurrentTaskRunner''
      in \<lparr>logger = logger super, started = started super,
          task_group = None, result_events = [], results = [], keys = {},
          executor = None, futures = []\<rparr>)"

definition concurrent_concurrency_type :: "concurrent_task_runner \<Rightarrow> TaskConcurrencyType" where
  "concurrent_concurrency_type self = CONCURRENT"

definition concurrent_duplicate :: "concurrent_task_runner \<Rightarrow> concurrent_task_runner" where
  "concurrent_duplicate self = concurrent_init"

definition concurrent_obj :: "concurrent_task_runner \<Rightarrow> obj" where
  "concurrent_obj self =
     Obj ''ConcurrentTaskRunner''
       [(''_task_group'', ATaskGroup (task_group self)),
        (''_result_events'', AEvents (result_events self)),
        (''_results'', AStates (results self)),
        (''_keys'', AKeys (keys self)),
        (''_executor'', AExecutor (executor self)),
        (''_futures'', AFutures (futures self)),
        (''logger'', ALogger (logger self)),
        (''_started'', ABool (started self))]"

text \<open>\<open>TaskGroup.start_soon\<close>: a task group whose scope has ended takes no new task.\<close>

definition start_soon :: "task_group \<Rightarrow> uuid \<times> call \<Rightarrow> error + task_group" where
  "start_soon tg task =
     (if active tg then Inr (TaskGroup True (children tg @ [task]))
      else Inl (RuntimeError ''This task group is not active; no new tasks can be started.''))"

text \<open>\<open>ThreadPoolExecutor.submit\<close>: allocates the future and queues the work item.\<close>

definition executor_submit ::
  "executor \<Rightarrow> bool list \<Rightarrow> uuid \<times> call \<Rightarrow> error + executor \<times> bool list \<times> nat" where
  "executor_submit ex heap item =
     (if shutdown ex then Inl (RuntimeError ''cannot schedule new futures after shutdown'')
      else Inr (ThreadPoolExecutor False (work_queue ex @ [(length heap, item)]),
                heap @ [False], length heap))"

text \<open>
  The world of one runner: the runner, the heap of futures, and the resources on the
  exit stack of the \<open>start\<close> or \<open>start_sync\<close> call whose scope is open.
\<close>

datatype scope = AsyncScope | SyncScope

record world =
  runner :: concurrent_task_runner
  heap :: "bool list"
  scope :: "scope option"

definition init_world :: world where
  "init_world = \<lparr>runner = concurrent_init, heap = [], scope = None\<rparr>"

definition concurrent_start_hook :: "concurrent_task_runner \<Rightarrow> concurrent_task_runner" where
  "concurrent_start_hook self =
     self\<lparr>task_group := Some (TaskGroup True []),
          executor := Some (ThreadPoolExecutor False [])\<rparr>"

definition concurrent_start_sync_hook :: "concurrent_task_runner \<Rightarrow> concurrent_task_runner" where
  "concurrent_start_sync_hook self = self\<lparr>executor := Some (ThreadPoolExecutor False [])\<rparr>"

definition concurrent_submit ::
  "concurrent_task_runner \<Rightarrow> uuid \<Rightarrow> call \<Rightarrow>
   error \<times> concurrent_task_runner + concurrent_task_runner" where
  "concurrent_submit self key call =
     (if \<not> started self then
        Inl (RuntimeError ''The task runner must be started before submitting work.'', self)
      else case task_group self of
        None \<Rightarrow>
          Inl (RuntimeError
            ''The concurrent task runner cannot be used to submit work after serialization.'',
            self)
      | Some tg \<Rightarrow>
          (let self1 = self\<lparr>result_events := AList.update key False (result_events self)\<rparr>
           in case start_soon tg (key, call) of
                Inl e \<Rightarrow> Inl (e, self1)
              | Inr tg' \<Rightarrow> Inr (self1\<lparr>task_group := Some tg'\<rparr>)))"

definition concurrent_submit_sync ::
  "world \<Rightarrow> uuid \<Rightarrow> call \<Rightarrow> error \<times> world + world" where
  "concurrent_submit_sync w key call =
     (if \<not> started (runner w) then
        Inl (RuntimeError ''The task runner must be started before submitting work.'', w)
      else case executor (runner w) of
        None \<Rightarrow>
          Inl (RuntimeError
            ''The concurrent task runner cannot be used to submit work after serialization.'',
            w)
      | Some ex \<Rightarrow>
          (case executor_submit ex (heap w) (key, call) of
             Inl e \<Rightarrow> Inl (e, w)
           | Inr (ex', heap', fut) \<Rightarrow>
               Inr (w\<lparr>runner := (runner w)\<lparr>executor := Some ex',
                                       futures := AList.update key fut (futures (runner w))\<rparr>,
                      heap := heap'\<rparr>)))"

definition run_and_store_result ::
  "concurrent_task_runner \<Rightarrow> uuid \<Rightarrow> call \<Rightarrow>
   error \<times> concurrent_task_runner + concurrent_task_runner" where
  "run_and_store_result self key call =
     (let result = (case call () of Inr r \<Rightarrow> r | Inl e \<Rightarrow> exception_to_crashed_state e);
          self1 = self\<lparr>results := AList.update key result (results self)\<rparr>
      in case map_of (result_events self1) key of
           None \<Rightarrow> Inl (KeyError key, self1)
         | Some ev \<Rightarrow>
             Inr (self1\<lparr>result_events := AList.update key True (result_events self1)\<rparr>))"

definition run_and_store_result_sync ::
  "concurrent_task_runner \<Rightarrow> uuid \<Rightarrow> call \<Rightarrow> concurrent_task_runner" where
  "run_and_store_result_sync self key call =
     (let result = (case call () of Inr r \<Rightarrow> r | Inl e \<Rightarrow> exception_to_crashed_state e)
      in self\<lparr>results := AList.update key result (results self)\<rparr>)"

text \<open>
  The waits do not assign to the runner; they read it. Each is given the world at the
  moment the caller is resumed, and is \<open>Blocked\<close> where the caller is not resumed.
\<close>

definition get_run_result ::
  "concurrent_task_runner \<Rightarrow> uuid \<Rightarrow> nat option \<Rightarrow> nat \<Rightarrow> state option awaited" where
  "get_run_result self key timeout waited =
     (case map_of (result_events self) key of
        None \<Rightarrow> Raised (KeyError key)
      | Some is_set \<Rightarrow>
          if is_set then
            (case map_of (results self) key of
               None \<Rightarrow> Raised (KeyError key)
             | Some r \<Rightarrow> Returned (Some r))
          else if expired timeout waited then Returned None
          else Blocked)"

definition future_done :: "bool list \<Rightarrow> nat \<Rightarrow> bool" where
  "future_done h fut = (fut < length h \<and> h ! fut)"

definition concurrent_wait_sync ::
  "world \<Rightarrow> uuid \<Rightarrow> nat option \<Rightarrow> nat \<Rightarrow> state option awaited" where
  "concurrent_wait_sync w key timeout waited =
     (case executor (runner w) of
        None \<Rightarrow>
          Raised (RuntimeError
            ''The concurrent task runner cannot be used to wait for work after serialization.'')
      | Some ex \<Rightarrow>
          (case map_of (futures (runner w)) key of
             None \<Rightarrow> Raised (KeyError key)
           | Some fut \<Rightarrow>
               if future_done (heap w) fut \<or> expired timeout waited
               then Returned (map_of (results (runner w)) key)
               else Blocked))"

definition concurrent_wait ::
  "world \<Rightarrow> uuid \<Rightarrow> nat option \<Rightarrow> nat \<Rightarrow> state option awaited" where
  "concurrent_wait w key timeout waited =
     (case task_group (runner w) of
        None \<Rightarrow>
          Raised (RuntimeError
            ''The concurrent task runner cannot be used to wait for work after serialization.'')
      | Some tg \<Rightarrow>
          if map_of (futures (runner w)) key \<noteq> None
          then concurrent_wait_sync w key timeout waited
          else get_run_result (runner w) key timeout waited)"

subsection \<open>Serialization\<close>

text \<open>The dictionary that \<open>__getstate__\<close> returns and \<open>__setstate__\<close> receives.\<close>

record state_dict =
  d_logger :: string
  d_started :: bool
  d_task_group :: "task_group option"
  d_result_events :: "(uuid \<times> bool) list"
  d_results :: "(uuid \<times> state) list"
  d_keys :: "uuid set"
  d_executor :: "executor option"
  d_futures :: "(uuid \<times> nat) list option"

definition getstate :: "concurrent_task_runner \<Rightarrow> state_dict" where
  "getstate self =
     (let data = \<lparr>d_logger = logger self, d_started = started self,
                  d_task_group = task_group self, d_result_events = result_events self,
                  d_results = results self, d_keys = keys self,
                  d_executor = executor self, d_futures = Some (futures self)\<rparr>
      in data\<lparr>d_task_group := None, d_executor := None, d_futures := None\<rparr>)"

definition setstate :: "concurrent_task_runner \<Rightarrow> state_dict \<Rightarrow> concurrent_task_runner" where
  "setstate self data =
     (let self1 = self\<lparr>logger := d_logger data, started := d_started data,
                       result_events := d_result_events data, results := d_results data,
                       keys := d_keys data\<rparr>
      in self1\<lparr>task_group := None, executor := None, futures := []\<rparr>)"

text \<open>
  Unpickling makes an instance without running \<open>__init__\<close> and hands it the pickled
  dictionary; whatever the new instance held is overwritten.
\<close>

definition unpickled :: "concurrent_task_runner \<Rightarrow> concurrent_task_runner" where
  "unpickled self = setstate concurrent_init (getstate self)"

text \<open>
  Pickling calls \<open>__getstate__\<close> and pickles the values of the dictionary it returns.
  \<open>__getstate__\<close> leaves \<open>_result_events\<close> in the dictionary, so every completion
  signal is pickled. The class \<open>Event\<close> is not among the sources: \<open>pickle_event\<close> is
  the error that pickle raises on a signal, if it raises one. The round trip raises the
  first such error and otherwise gives the unpickled copy.
\<close>

fun pickle_events :: "(bool \<Rightarrow> error option) \<Rightarrow> (uuid \<times> bool) list \<Rightarrow> error option" where
  "pickle_events pickle_event [] = None"
| "pickle_events pickle_event ((key, ev) # rest) =
     (case pickle_event ev of
        Some e \<Rightarrow> Some e
      | None \<Rightarrow> pickle_events pickle_event rest)"

definition roundtrip ::
  "(bool \<Rightarrow> error option) \<Rightarrow> concurrent_task_runner \<Rightarrow> error + concurrent_task_runner" where
  "roundtrip pickle_event self =
     (let data = getstate self
      in case pickle_events pickle_event (d_result_events data) of
           Some e \<Rightarrow> Inl e
         | None \<Rightarrow> Inr (setstate concurrent_init data))"

subsection \<open>Steps of a run\<close>

text \<open>The event loop runs the \<open>i\<close>-th child of the task group to its end.\<close>

definition task_completes :: "world \<Rightarrow> nat \<Rightarrow> world option" where
  "task_completes w i =
     (case task_group (runner w) of
        None \<Rightarrow> None
      | Some tg \<Rightarrow>
          if i < length (children tg) then
            (let (key, call) = children tg ! i;
                 self1 = (runner w)\<lparr>task_group :=
                           Some (TaskGroup (active tg) (remove_nth i (children tg)))\<rparr>
             in case run_and_store_result self1 key call of
                  Inl (e, self2) \<Rightarrow> Some (w\<lparr>runner := self2\<rparr>)
                | Inr self2 \<Rightarrow> Some (w\<lparr>runner := self2\<rparr>))
          else None)"

text \<open>A worker thread runs the \<open>i\<close>-th queued work item and completes its future.\<close>

definition work_completes :: "world \<Rightarrow> nat \<Rightarrow> world option" where
  "work_completes w i =
     (case executor (runner w) of
        None \<Rightarrow> None
      | Some ex \<Rightarrow>
          if i < length (work_queue ex) then
            (let (fut, key, call) = work_queue ex ! i;
                 self1 = (runner w)\<lparr>executor :=
                           Some (ThreadPoolExecutor (shutdown ex) (remove_nth i (work_queue ex)))\<rparr>
             in Some (w\<lparr>runner := run_and_store_result_sync self1 key call,
                         heap := (heap w)[fut := True]\<rparr>))
          else None)"

text \<open>
  Leaving the scope of \<open>start\<close> or \<open>start_sync\<close>: the \<open>finally\<close> block runs, then the
  exit stack shuts the executor down and, for \<open>start\<close>, ends the task group. Both wait
  for what they hold, so the scope is left only once nothing is pending.
\<close>

definition close_task_group :: "task_group \<Rightarrow> task_group" where
  "close_task_group tg = TaskGroup False (children tg)"

definition shutdown_executor :: "executor \<Rightarrow> executor" where
  "shutdown_executor ex = ThreadPoolExecutor True (work_queue ex)"

definition pending :: "concurrent_task_runner \<Rightarrow> uuid list" where
  "pending self =
     (case task_group self of None \<Rightarrow> [] | Some tg \<Rightarrow> map fst (children tg)) @
     (case executor self of None \<Rightarrow> [] | Some ex \<Rightarrow> map (fst \<circ> snd) (work_queue ex))"

definition exit_scope :: "world \<Rightarrow> world option" where
  "exit_scope w =
     (case scope w of
        None \<Rightarrow> None
      | Some sc \<Rightarrow>
          if pending (runner w) \<noteq> [] then None
          else
            (let self1 = start_finally (runner w);
                 self2 = self1\<lparr>executor := map_option shutdown_executor (executor self1)\<rparr>;
                 self3 = (if sc = AsyncScope
                          then self2\<lparr>task_group := map_option close_task_group (task_group self2)\<rparr>
                          else self2)
             in Some (w\<lparr>runner := self3, scope := None\<rparr>)))"

datatype event =
    Start
  | StartSync
  | ExitScope
  | Submit uuid call
  | SubmitSync uuid call
  | Wait uuid "nat option" nat
  | WaitSync uuid "nat option" nat
  | TaskCompletes nat
  | WorkCompletes nat
  | RoundTrip

text \<open>
  One step of a run. A call that raises leaves the runner as it is at the raise, and
  the run goes on; \<open>None\<close> is a step that cannot happen in this world. The step
  \<open>RoundTrip\<close> is a serialization round trip that gives a copy: the run follows the
  copy, which has no open scope. A round trip that raises changes nothing and is no
  step. The step is allowed in every world, whatever pickle does with the signals.
\<close>

fun step :: "world \<Rightarrow> event \<Rightarrow> world option" where
  "step w Start =
     (case start concurrent_start_hook (runner w) of
        Inl (e, s) \<Rightarrow> Some (w\<lparr>runner := s\<rparr>)
      | Inr s \<Rightarrow> Some (w\<lparr>runner := s, scope := Some AsyncScope\<rparr>))"
| "step w StartSync =
     (case start concurrent_start_sync_hook (runner w) of
        Inl (e, s) \<Rightarrow> Some (w\<lparr>runner := s\<rparr>)
      | Inr s \<Rightarrow> Some (w\<lparr>runner := s, scope := Some SyncScope\<rparr>))"
| "step w ExitScope = exit_scope w"
| "step w (Submit key call) =
     (case concurrent_submit (runner w) key call of
        Inl (e, s) \<Rightarrow> Some (w\<lparr>runner := s\<rparr>)
      | Inr s \<Rightarrow> Some (w\<lparr>runner := s\<rparr>))"
| "step w (SubmitSync key call) =
     (case concurrent_submit_sync w key call of
        Inl (e, w') \<Rightarrow> Some w'
      | Inr w' \<Rightarrow> Some w')"
| "step w (Wait key timeout waited) =
     (case concurrent_wait w key timeout waited of Blocked \<Rightarrow> None | _ \<Rightarrow> Some w)"
| "step w (WaitSync key timeout waited) =
     (case concurrent_wait_sync w key timeout waited of Blocked \<Rightarrow> None | _ \<Rightarrow> Some w)"
| "step w (TaskCompletes i) = task_completes w i"
| "step w (WorkCompletes i) = work_completes w i"
| "step w RoundTrip = Some (w\<lparr>runner := unpickled (runner w), scope := None\<rparr>)"

fun exec :: "world \<Rightarrow> event list \<Rightarrow> world option" where
  "exec w [] = Some w"
| "exec w (e # es) = (case step w e of None \<Rightarrow> None | Some w' \<Rightarrow> exec w' es)"

text \<open>The keys a run submits, in order, on either path.\<close>

fun submitted :: "event list \<Rightarrow> uuid list" where
  "submitted [] = []"
| "submitted (Submit key call # es) = key # submitted es"
| "submitted (SubmitSync key call # es) = key # submitted es"
| "submitted (e # es) = submitted es"

subsection \<open>Callables used in examples\<close>

definition call_ok :: call where
  "call_ok = (\<lambda>_. Inr (Completed ''ok''))"

definition call_boom :: call where
  "call_boom = (\<lambda>_. Inl (Exc ''ValueError'' ''boom''))"

text \<open>A new Sequential runner with no submit awaiting its call.\<close>

definition sequential_init_world :: sequential_world where
  "sequential_init_world = \<lparr>seq_self = sequential_init, awaiting = []\<rparr>"

text \<open>A pickle that refuses every completion signal, and one that accepts them all.\<close>

definition pickle_refuses :: "bool \<Rightarrow> error option" where
  "pickle_refuses ev = Some (TypeError ''cannot pickle an Event'')"

definition pickle_accepts :: "bool \<Rightarrow> error option" where
  "pickle_accepts ev = None"

text \<open>A runner inside the scope of \<open>start\<close>, and one inside the scope of \<open>start_sync\<close>.\<close>

definition started_world :: world where
  "started_world =
     \<lparr>runner = (concurrent_start_hook concurrent_init)\<lparr>started := True\<rparr>,
      heap = [], scope = Some AsyncScope\<rparr>"


text \<open>A started runner with one cooperative and one blocking submission pending,
  both of a call that raises.\<close>

definition faulty_world :: world where
  "faulty_world =
     \<lparr>runner = (runner started_world)\<lparr>
        task_group := Some (TaskGroup True [(1, call_boom)]),
        result_events := [(1, False)],
        executor := Some (ThreadPoolExecutor False [(0, 2, call_boom)]),
        futures := [(2, 0)]\<rparr>,
      heap = [False], scope = Some AsyncScope\<rparr>"




subsection \<open>Invariants of a run\<close>

text \<open>
  Resources: a task group is never there without an executor, inside the scope of
  \<open>start\<close> the task group is there, and a future is never held without an executor.
  Signals: a signal that is set has its Outcome in the Result Table. Futures: every
  future held is on the heap and, once done, has its Outcome in the Result Table; every
  queued work item has its future on the heap, and the futures dictionary holds that
  future under the key of the item only.
\<close>

definition resources_inv :: "world \<Rightarrow> bool" where
  "resources_inv w \<longleftrightarrow>
     (task_group (runner w) \<noteq> None \<longrightarrow> executor (runner w) \<noteq> None) \<and>
     (scope w = Some AsyncScope \<longrightarrow> task_group (runner w) \<noteq> None) \<and>
     (futures (runner w) \<noteq> [] \<longrightarrow> executor (runner w) \<noteq> None)"

definition signals_inv :: "world \<Rightarrow> bool" where
  "signals_inv w \<longleftrightarrow>
     (\<forall>k. map_of (result_events (runner w)) k = Some True \<longrightarrow>
          map_of (results (runner w)) k \<noteq> None)"

definition futures_inv :: "world \<Rightarrow> bool" where
  "futures_inv w \<longleftrightarrow>
     (\<forall>k a. map_of (futures (runner w)) k = Some a \<longrightarrow>
        a < length (heap w) \<and> (heap w ! a \<longrightarrow> map_of (results (runner w)) k \<noteq> None)) \<and>
     (\<forall>ex. executor (runner w) = Some ex \<longrightarrow>
        (\<forall>a k' c. (a, k', c) \<in> set (work_queue ex) \<longrightarrow>
           a < length (heap w) \<and>
           (\<forall>k. map_of (futures (runner w)) k = Some a \<longrightarrow> k = k')))"

definition reachable_inv :: "world \<Rightarrow> bool" where
  "reachable_inv w \<longleftrightarrow> resources_inv w \<and> signals_inv w \<and> futures_inv w"


text \<open>
  The Result Table against the keys in use: the keys of the pending work are distinct,
  none of them has an entry yet, no key has two entries, and every key pending or
  entered is among the keys used so far.
\<close>

definition table_inv :: "uuid set \<Rightarrow> concurrent_task_runner \<Rightarrow> bool" where
  "table_inv used self \<longleftrightarrow>
     distinct (pending self) \<and> distinct (map fst (results self)) \<and>
     set (pending self) \<inter> fst ` set (results self) = {} \<and>
     set (pending self) \<union> fst ` set (results self) \<subseteq> used"



text \<open>The started runner after \<open>submit\<close> of a raising call under key 1.\<close>

definition cooperative_world :: world where
  "cooperative_world =
     started_world\<lparr>runner := (runner started_world)\<lparr>
        result_events := [(1, False)],
        task_group := Some (TaskGroup True [(1, call_boom)])\<rparr>\<rparr>"

section \<open>Facts about dictionaries and lists\<close>

lemma update_fresh:
  "k \<notin> fst ` set al \<Longrightarrow> AList.update k v al = al @ [(k, v)]"
  by (induction al) auto

lemma map_of_update_same: "map_of (AList.update k v al) k = Some v"
  by (simp add: update_conv')

lemma map_of_update_other: "k' \<noteq> k \<Longrightarrow> map_of (AList.update k v al) k' = map_of al k'"
  by (simp add: update_conv')

section \<open>The sequential runner\<close>

lemma sequential_wait_after_submit:
  "sequential_wait (sequential_submit self key call) key timeout =
     Inr (Some (case call () of Inr r \<Rightarrow> r | Inl e \<Rightarrow> exception_to_crashed_state e))"
  by (simp add: sequential_wait_def sequential_submit_def map_of_update_same)

lemma sequential_submit_fresh:
  "key \<notin> fst ` set (seq_results self) \<Longrightarrow>
   seq_results (sequential_submit self key call) =
     seq_results self @
     [(key, case call () of Inr r \<Rightarrow> r | Inl e \<Rightarrow> exception_to_crashed_state e)]"
  by (simp add: sequential_submit_def update_fresh)

lemma completion_order:
  "sequential_exec w evs = Some w' \<Longrightarrow>
   distinct (map fst (completions (awaiting w) evs)) \<Longrightarrow>
   fst ` set (completions (awaiting w) evs) \<inter> fst ` set (seq_results (seq_self w)) = {} \<Longrightarrow>
   seq_results (seq_self w') =
     seq_results (seq_self w) @
     map (\<lambda>(key, call).
            (key, case call () of Inr r \<Rightarrow> r | Inl e \<Rightarrow> exception_to_crashed_state e))
       (completions (awaiting w) evs)"
proof (induction evs arbitrary: w)
  case Nil
  then show ?case by simp
next
  case (Cons ev evs)
  from Cons.prems(1) obtain w1 where s: "sequential_step w ev = Some w1"
    and e: "sequential_exec w1 evs = Some w'"
    by (auto split: option.splits)
  show ?case
  proof (cases ev)
    case (SubmitCalled key call)
    with s have w1: "awaiting w1 = awaiting w @ [(key, call)]" "seq_self w1 = seq_self w"
      by auto
    from Cons.prems(2,3) SubmitCalled
    have "distinct (map fst (completions (awaiting w1) evs))"
      and "fst ` set (completions (awaiting w1) evs) \<inter> fst ` set (seq_results (seq_self w1)) = {}"
      by (simp_all add: w1)
    from Cons.IH [OF e this] show ?thesis by (simp add: SubmitCalled w1)
  next
    case (CallCompletes i)
    with s have i: "i < length (awaiting w)" by (auto split: if_splits)
    obtain key call where item: "awaiting w ! i = (key, call)" by (cases "awaiting w ! i")
    from s CallCompletes i item
    have w1: "awaiting w1 = remove_nth i (awaiting w)"
      "seq_self w1 = sequential_submit (seq_self w) key call"
      by auto
    have c: "completions (awaiting w) (ev # evs) =
             (key, call) # completions (awaiting w1) evs"
      using CallCompletes i item by (simp add: w1)
    from Cons.prems(2,3) have fresh: "key \<notin> fst ` set (seq_results (seq_self w))"
      and d: "distinct (map fst (completions (awaiting w1) evs))"
      and nk: "key \<notin> fst ` set (completions (awaiting w1) evs)"
      and dis: "fst ` set (completions (awaiting w1) evs) \<inter>
                fst ` set (seq_results (seq_self w)) = {}"
      unfolding c by auto
    have r1: "seq_results (seq_self w1) =
        seq_results (seq_self w) @
        [(key, case call () of Inr r \<Rightarrow> r | Inl e \<Rightarrow> exception_to_crashed_state e)]"
      using fresh by (simp add: w1 sequential_submit_fresh)
    have "fst ` set (completions (awaiting w1) evs) \<inter> fst ` set (seq_results (seq_self w1)) = {}"
      using nk dis unfolding r1 by auto
    from Cons.IH [OF e d this] show ?thesis unfolding c by (simp add: r1)
  qed
qed

lemma remove_nth_0_single: "remove_nth 0 [x] = []"
  by (simp add: remove_nth_def)

lemma in_turn_runs:
  "awaiting w = [] \<Longrightarrow>
   \<exists>w'. sequential_exec w (awaited_in_turn subs) = Some w' \<and> awaiting w' = []"
proof (induction subs arbitrary: w)
  case Nil
  then show ?case by simp
next
  case (Cons p subs)
  obtain key call where p: "p = (key, call)" by (cases p)
  let ?w1 = "\<lparr>seq_self = sequential_submit (seq_self w) key call, awaiting = []\<rparr>"
  have "awaiting ?w1 = []" by simp
  from Cons.IH [OF this] obtain w' where "sequential_exec ?w1 (awaited_in_turn subs) = Some w'"
    and "awaiting w' = []" by blast
  then show ?case using Cons.prems by (simp add: p remove_nth_0_single)
qed

lemma in_turn_completions: "completions [] (awaited_in_turn subs) = subs"
  by (induction subs) (auto simp: remove_nth_0_single)

text \<open>
  Claim C3, as stated, fails in its last part. With a key used again, the later Outcome
  takes the place of the earlier one, in front of Outcomes submitted before it; and
  when a second \<open>submit\<close> is made while the first awaits its call, the table is in the
  order in which the calls complete.
\<close>

theorem sequential_inline_execution_counterexample:
  "sequential_exec sequential_init_world
     (awaited_in_turn [(7, call_boom), (2, call_ok), (7, call_ok)]) =
     Some \<lparr>seq_self = sequential_init\<lparr>seq_results :=
              [(7, Completed ''ok''), (2, Completed ''ok'')]\<rparr>,
           awaiting = []\<rparr> \<and>
   sequential_exec sequential_init_world
     [SubmitCalled 1 call_boom, SubmitCalled 2 call_ok, CallCompletes 1, CallCompletes 0] =
     Some \<lparr>seq_self = sequential_init\<lparr>seq_results :=
              [(2, Completed ''ok''), (1, Crashed (Exc ''ValueError'' ''boom''))]\<rparr>,
           awaiting = []\<rparr>"
  by (simp add: sequential_init_world_def sequential_init_def sequential_submit_def
      remove_nth_def call_ok_def call_boom_def exception_to_crashed_state_def Let_def)

text \<open>
  Claim C3, amended. \<open>SequentialTaskRunner.submit\<close> records the Outcome of the call, or
  the crashed conversion of its fault, before it returns: \<open>wait\<close> right after
  \<open>submit\<close> returns exactly that Outcome. Calls that complete under distinct keys new
  to the Result Table leave their Outcomes behind the entries already there in the
  order in which they complete; when every \<open>submit\<close> is awaited before the next is made,
  that is the order of submission.
\<close>

theorem sequential_inline_execution:
  "sequential_wait (sequential_submit self key call) key timeout =
     Inr (Some (case call () of Inr r \<Rightarrow> r | Inl e \<Rightarrow> exception_to_crashed_state e)) \<and>
   (i < length (awaiting w) \<and> awaiting w ! i = (key, call) \<longrightarrow>
      (\<exists>w1. sequential_step w (CallCompletes i) = Some w1 \<and>
            sequential_wait (seq_self w1) key timeout =
              Inr (Some (case call () of Inr r \<Rightarrow> r
                         | Inl e \<Rightarrow> exception_to_crashed_state e)))) \<and>
   (sequential_exec w evs = Some w' \<and>
    distinct (map fst (completions (awaiting w) evs)) \<and>
    fst ` set (completions (awaiting w) evs) \<inter> fst ` set (seq_results (seq_self w)) = {} \<longrightarrow>
      seq_results (seq_self w') =
        seq_results (seq_self w) @
        map (\<lambda>(key, call).
               (key, case call () of Inr r \<Rightarrow> r | Inl e \<Rightarrow> exception_to_crashed_state e))
          (completions (awaiting w) evs)) \<and>
   (awaiting w = [] \<longrightarrow>
      completions (awaiting w) (awaited_in_turn subs) = subs \<and>
      (\<exists>w2. sequential_exec w (awaited_in_turn subs) = Some w2))"
proof (intro conjI impI)
  show "sequential_wait (sequential_submit self key call) key timeout =
     Inr (Some (case call () of Inr r \<Rightarrow> r | Inl e \<Rightarrow> exception_to_crashed_state e))"
    by (rule sequential_wait_after_submit)
next
  assume "i < length (awaiting w) \<and> awaiting w ! i = (key, call)"
  then show "\<exists>w1. sequential_step w (CallCompletes i) = Some w1 \<and>
            sequential_wait (seq_self w1) key timeout =
              Inr (Some (case call () of Inr r \<Rightarrow> r
                         | Inl e \<Rightarrow> exception_to_crashed_state e))"
    by (simp add: sequential_wait_after_submit)
next
  assume "sequential_exec w evs = Some w' \<and>
    distinct (map fst (completions (awaiting w) evs)) \<and>
    fst ` set (completions (awaiting w) evs) \<inter> fst ` set (seq_results (seq_self w)) = {}"
  then show "seq_results (seq_self w') =
        seq_results (seq_self w) @
        map (\<lambda>(key, call).
               (key, case call () of Inr r \<Rightarrow> r | Inl e \<Rightarrow> exception_to_crashed_state e))
          (completions (awaiting w) evs)"
    using completion_order [of w evs w'] by blast
next
  assume a: "awaiting w = []"
  then show "completions (awaiting w) (awaited_in_turn subs) = subs"
    by (simp add: in_turn_completions)
  from in_turn_runs [OF a] show "\<exists>w2. sequential_exec w (awaited_in_turn subs) = Some w2"
    by blast
qed

theorem sequential_inline_execution_witness:
  "awaiting sequential_init_world = [] \<and>
   completions (awaiting sequential_init_world)
     (awaited_in_turn [(7, call_boom), (2, call_ok)]) = [(7, call_boom), (2, call_ok)] \<and>
   (\<exists>w2. sequential_exec sequential_init_world (awaited_in_turn [(7, call_boom), (2, call_ok)]) =
           Some w2 \<and>
         seq_results (seq_self w2) =
           [(7, Crashed (Exc ''ValueError'' ''boom'')), (2, Completed ''ok'')] \<and>
         sequential_wait (seq_self w2) 2 None = Inr (Some (Completed ''ok''))) \<and>
   (\<exists>w1. sequential_step
           \<lparr>seq_self = sequential_init, awaiting = [(7, call_boom), (2, call_ok)]\<rparr>
           (CallCompletes 1) = Some w1 \<and>
         sequential_wait (seq_self w1) 2 None = Inr (Some (Completed ''ok'')))"
proof -
  let ?subs = "[(7, call_boom), (2, call_ok)]"
  let ?w = "\<lparr>seq_self = sequential_init, awaiting = [(7, call_boom), (2, call_ok)]\<rparr>"
  have a: "awaiting sequential_init_world = []" by (simp add: sequential_init_world_def)
  have ok: "(case call_ok () of Inr r \<Rightarrow> r | Inl e \<Rightarrow> exception_to_crashed_state e) =
            Completed ''ok''"
    and boom: "(case call_boom () of Inr r \<Rightarrow> r | Inl e \<Rightarrow> exception_to_crashed_state e) =
            Crashed (Exc ''ValueError'' ''boom'')"
    by (simp_all add: call_ok_def call_boom_def exception_to_crashed_state_def)
  note t = sequential_inline_execution [where w = sequential_init_world and subs = ?subs
      and evs = "awaited_in_turn ?subs"]
  from t a have c: "completions (awaiting sequential_init_world) (awaited_in_turn ?subs) = ?subs"
    by blast
  from t a obtain w2 where r: "sequential_exec sequential_init_world (awaited_in_turn ?subs) = Some w2"
    by blast
  have fresh: "fst ` set (completions (awaiting sequential_init_world) (awaited_in_turn ?subs)) \<inter>
      fst ` set (seq_results (seq_self sequential_init_world)) = {}"
    by (simp add: sequential_init_world_def sequential_init_def Let_def)
  have d: "distinct (map fst (completions (awaiting sequential_init_world)
      (awaited_in_turn ?subs)))"
    unfolding c by simp
  from sequential_inline_execution [where w = sequential_init_world and subs = ?subs
      and evs = "awaited_in_turn ?subs" and w' = w2] r d fresh
  have "seq_results (seq_self w2) =
        seq_results (seq_self sequential_init_world) @
        map (\<lambda>(key, call).
               (key, case call () of Inr r \<Rightarrow> r | Inl e \<Rightarrow> exception_to_crashed_state e))
          (completions (awaiting sequential_init_world) (awaited_in_turn ?subs))"
    by blast
  then have res: "seq_results (seq_self w2) =
           [(7, Crashed (Exc ''ValueError'' ''boom'')), (2, Completed ''ok'')]"
    unfolding c by (simp add: ok boom sequential_init_world_def sequential_init_def Let_def)
  then have wt: "sequential_wait (seq_self w2) 2 None = Inr (Some (Completed ''ok''))"
    by (simp add: sequential_wait_def)
  have h: "1 < length (awaiting ?w) \<and> awaiting ?w ! 1 = (2, call_ok)" by simp
  from sequential_inline_execution [where w = ?w and i = 1 and key = 2 and call = call_ok
      and timeout = None] h
  have st: "\<exists>w1. sequential_step ?w (CallCompletes 1) = Some w1 \<and>
         sequential_wait (seq_self w1) 2 None = Inr (Some (Completed ''ok''))"
    unfolding ok by blast
  from a c r res wt st show ?thesis by blast
qed


section \<open>Lifecycle and usage errors\<close>

lemma exit_scope_not_started: "exit_scope w = Some w' \<Longrightarrow> \<not> started (runner w')"
  by (auto simp: exit_scope_def start_finally_def Let_def split: option.splits if_splits)

text \<open>
  Claim C4, as stated, fails: \<open>SequentialTaskRunner.submit\<close> has no check of
  \<open>_started\<close>. On a Sequential runner that was never started it runs the call and
  records the Outcome.
\<close>

theorem usage_errors_counterexample:
  "\<not> started sequential_init \<and>
   sequential_wait (sequential_submit sequential_init 1 call_ok) 1 None =
     Inr (Some (Completed ''ok''))"
  by (simp add: sequential_init_def base_init_def sequential_submit_def sequential_wait_def
      call_ok_def Let_def)

text \<open>
  Claim C4, amended. \<open>start\<close> and \<open>start_sync\<close> on a runner that is already started
  raise the usage error, whatever the variant (the hook is the variant's \<open>_start\<close>). On
  a Concurrent runner that is not started, never started or after its scope was left,
  \<open>submit\<close> and \<open>submit_sync\<close> raise the usage error at once and leave the runner as
  it was. The Sequential runner's \<open>submit\<close> does not read the lifecycle state, and its
  \<open>submit_sync\<close> is the base one, which raises \<open>NotImplementedError\<close>.
\<close>

theorem usage_errors:
  "(started self \<longrightarrow>
      start hook self = Inl (RuntimeError ''The task runner is already started!'', self)) \<and>
   (\<not> started cself \<longrightarrow>
      concurrent_submit cself key call =
        Inl (RuntimeError ''The task runner must be started before submitting work.'', cself)) \<and>
   (\<not> started (runner w) \<longrightarrow>
      concurrent_submit_sync w key call =
        Inl (RuntimeError ''The task runner must be started before submitting work.'', w)) \<and>
   \<not> started concurrent_init \<and>
   (exit_scope w0 = Some w' \<longrightarrow> \<not> started (runner w')) \<and>
   sequential_submit (sself\<lparr>started := b\<rparr>) key call =
     (sequential_submit sself key call)\<lparr>started := b\<rparr> \<and>
   base_submit_sync sself key call = NotImplementedError"
  using exit_scope_not_started [of w0 w']
  by (simp add: start_def concurrent_submit_def concurrent_submit_sync_def concurrent_init_def
      base_init_def sequential_submit_def base_submit_sync_def Let_def)

theorem usage_errors_witness:
  "started (runner started_world) \<and>
   start concurrent_start_hook (runner started_world) =
     Inl (RuntimeError ''The task runner is already started!'', runner started_world) \<and>
   \<not> started (runner init_world) \<and>
   concurrent_submit (runner init_world) 1 call_ok =
     Inl (RuntimeError ''The task runner must be started before submitting work.'',
          runner init_world) \<and>
   concurrent_submit_sync init_world 1 call_ok =
     Inl (RuntimeError ''The task runner must be started before submitting work.'',
          init_world) \<and>
   exit_scope started_world =
     Some (started_world\<lparr>runner := (runner started_world)\<lparr>started := False,
              task_group := Some (TaskGroup False []),
              executor := Some (ThreadPoolExecutor True [])\<rparr>, scope := None\<rparr>) \<and>
   \<not> started (runner (started_world\<lparr>runner := (runner started_world)\<lparr>started := False,
              task_group := Some (TaskGroup False []),
              executor := Some (ThreadPoolExecutor True [])\<rparr>, scope := None\<rparr>))"
proof -
  have ex: "exit_scope started_world =
     Some (started_world\<lparr>runner := (runner started_world)\<lparr>started := False,
              task_group := Some (TaskGroup False []),
              executor := Some (ThreadPoolExecutor True [])\<rparr>, scope := None\<rparr>)"
    by (simp add: exit_scope_def started_world_def pending_def concurrent_start_hook_def
        concurrent_init_def start_finally_def close_task_group_def shutdown_executor_def Let_def)
  have st: "started (runner started_world)" and ns: "\<not> started (runner init_world)"
    by (simp_all add: started_world_def init_world_def concurrent_init_def base_init_def
        concurrent_start_hook_def Let_def)
  show ?thesis
    using usage_errors [of "runner started_world" concurrent_start_hook "runner init_world"
        1 call_ok init_world started_world
        "started_world\<lparr>runner := (runner started_world)\<lparr>started := False,
              task_group := Some (TaskGroup False []),
              executor := Some (ThreadPoolExecutor True [])\<rparr>, scope := None\<rparr>"] st ns
    by (simp add: ex)
qed

section \<open>Serialization\<close>

lemma unpickled_eq:
  "unpickled self =
     \<lparr>logger = logger self, started = started self, task_group = None,
      result_events = result_events self, results = results self, keys = keys self,
      executor = None, futures = []\<rparr>"
  by (simp add: unpickled_def setstate_def getstate_def concurrent_init_def Let_def)

lemma setstate_getstate: "setstate x (getstate self) = unpickled self"
  by (cases x) (simp add: unpickled_eq setstate_def getstate_def Let_def)

lemma roundtrip_no_signal:
  "result_events self = [] \<Longrightarrow> roundtrip pickle_event self = Inr (unpickled self)"
  by (simp add: roundtrip_def unpickled_def getstate_def Let_def)

lemma roundtrip_copy:
  "roundtrip pickle_event self = Inr copy \<Longrightarrow> copy = unpickled self"
  by (auto simp: roundtrip_def unpickled_def Let_def split: option.splits)

lemma roundtrip_raises:
  "pickle_events pickle_event (result_events self) = Some e \<Longrightarrow>
   roundtrip pickle_event self = Inl e"
  by (simp add: roundtrip_def getstate_def Let_def)

lemma unpickled_start:
  "started self \<Longrightarrow>
   start concurrent_start_hook (unpickled self) =
     Inl (RuntimeError ''The task runner is already started!'', unpickled self)"
  by (simp add: unpickled_eq start_def)

lemma unpickled_submit:
  "concurrent_submit (unpickled self) key call =
     Inl (RuntimeError
           (if started self
            then ''The concurrent task runner cannot be used to submit work after serialization.''
            else ''The task runner must be started before submitting work.''),
          unpickled self)"
  by (simp add: unpickled_eq concurrent_submit_def)

lemma unpickled_submit_sync:
  "runner w = unpickled self \<Longrightarrow>
   concurrent_submit_sync w key call =
     Inl (RuntimeError
           (if started self
            then ''The concurrent task runner cannot be used to submit work after serialization.''
            else ''The task runner must be started before submitting work.''),
          w)"
  by (simp add: unpickled_eq concurrent_submit_sync_def)

lemma unpickled_restart:
  "\<not> started self \<Longrightarrow>
   \<exists>s1 s2. start concurrent_start_hook (unpickled self) = Inr s1 \<and>
           concurrent_submit s1 key call = Inr s2"
  by (simp add: unpickled_eq start_def concurrent_start_hook_def concurrent_submit_def
      start_soon_def Let_def)

text \<open>
  Claim C5, as stated, fails: \<open>submit\<close> tests \<open>_started\<close> before it tests the task
  group, and \<open>_started\<close> is carried through the round trip. A new runner holds no
  signal and is serialized whatever pickle does with signals; its copy raises the very
  error of a runner that was never started.
\<close>

theorem serialization_roundtrip_counterexample:
  "roundtrip pickle_refuses concurrent_init = Inr (unpickled concurrent_init) \<and>
   concurrent_submit (unpickled concurrent_init) 1 call_ok =
     Inl (RuntimeError ''The task runner must be started before submitting work.'',
          unpickled concurrent_init) \<and>
   concurrent_submit concurrent_init 1 call_ok =
     Inl (RuntimeError ''The task runner must be started before submitting work.'',
          concurrent_init)"
  by (simp add: roundtrip_def unpickled_def concurrent_submit_def setstate_def getstate_def
      concurrent_init_def base_init_def Let_def)

text \<open>
  Claim C5, amended. The serialized dictionary holds \<open>None\<close> for the task group, the
  executor and the futures, and the Result Table as it is. A runner that holds no
  completion signal is serialized and deserialized without error; when pickle raises on
  a completion signal of the runner, the round trip raises that error and gives no
  copy. Whenever the round trip gives a copy, the copy has no task group, no executor
  and an empty futures dictionary, and its Result Table is the original's; \<open>submit\<close>
  and \<open>submit_sync\<close> on it raise a usage error and change nothing: the error about
  serialization if the runner was started when it was serialized, the error of a runner
  that is not started otherwise. In the latter case \<open>start\<close> on the copy succeeds and
  \<open>submit\<close> is accepted again; in the former \<open>start\<close> on the copy raises the error of
  a runner that is already started.
\<close>

theorem serialization_roundtrip:
  "d_task_group (getstate self) = None \<and> d_executor (getstate self) = None \<and>
   d_futures (getstate self) = None \<and> d_results (getstate self) = results self \<and>
   (result_events self = [] \<longrightarrow> (\<exists>c. roundtrip pickle_event self = Inr c)) \<and>
   (pickle_events pickle_event (result_events self) = Some e \<longrightarrow>
      roundtrip pickle_event self = Inl e) \<and>
   (roundtrip pickle_event self = Inr copy \<longrightarrow>
      copy = setstate x (getstate self) \<and>
      task_group copy = None \<and> executor copy = None \<and> futures copy = [] \<and>
      results copy = results self \<and>
      concurrent_submit copy key call =
        Inl (RuntimeError
              (if started self
               then ''The concurrent task runner cannot be used to submit work after serialization.''
               else ''The task runner must be started before submitting work.''),
             copy) \<and>
      (runner w = copy \<longrightarrow>
       concurrent_submit_sync w key call =
        Inl (RuntimeError
              (if started self
               then ''The concurrent task runner cannot be used to submit work after serialization.''
               else ''The task runner must be started before submitting work.''),
             w)) \<and>
      (\<not> started self \<longrightarrow>
       (\<exists>s1 s2. start concurrent_start_hook copy = Inr s1 \<and>
                concurrent_submit s1 key call = Inr s2)) \<and>
      (started self \<longrightarrow>
       start concurrent_start_hook copy =
         Inl (RuntimeError ''The task runner is already started!'', copy)))"
proof (intro conjI impI)
  show "d_task_group (getstate self) = None" "d_executor (getstate self) = None"
    "d_futures (getstate self) = None" "d_results (getstate self) = results self"
    by (simp_all add: getstate_def Let_def)
next
  assume "result_events self = []"
  then show "\<exists>c. roundtrip pickle_event self = Inr c"
    by (simp add: roundtrip_no_signal)
next
  assume "pickle_events pickle_event (result_events self) = Some e"
  then show "roundtrip pickle_event self = Inl e"
    by (rule roundtrip_raises)
next
  assume r: "roundtrip pickle_event self = Inr copy"
  then have c: "copy = unpickled self" by (rule roundtrip_copy)
  show "copy = setstate x (getstate self)" by (simp add: c setstate_getstate)
  show "task_group copy = None" "executor copy = None" "futures copy = []"
    "results copy = results self"
    by (simp_all add: c unpickled_eq)
  show "concurrent_submit copy key call =
        Inl (RuntimeError
              (if started self
               then ''The concurrent task runner cannot be used to submit work after serialization.''
               else ''The task runner must be started before submitting work.''),
             copy)"
    unfolding c by (rule unpickled_submit)
  {
    assume "runner w = copy"
    then have "runner w = unpickled self" by (simp add: c)
    then show "concurrent_submit_sync w key call =
        Inl (RuntimeError
              (if started self
               then ''The concurrent task runner cannot be used to submit work after serialization.''
               else ''The task runner must be started before submitting work.''),
             w)"
      by (rule unpickled_submit_sync)
  }
  {
    assume "\<not> started self"
    then show "\<exists>s1 s2. start concurrent_start_hook copy = Inr s1 \<and>
                concurrent_submit s1 key call = Inr s2"
      unfolding c by (rule unpickled_restart)
  }
  {
    assume "started self"
    then show "start concurrent_start_hook copy =
         Inl (RuntimeError ''The task runner is already started!'', copy)"
      unfolding c by (rule unpickled_start)
  }
qed

theorem serialization_roundtrip_witness:
  "result_events concurrent_init = [] \<and> \<not> started concurrent_init \<and>
   roundtrip pickle_refuses concurrent_init = Inr (unpickled concurrent_init) \<and>
   (\<exists>s1 s2. start concurrent_start_hook (unpickled concurrent_init) = Inr s1 \<and>
            concurrent_submit s1 1 call_ok = Inr s2) \<and>
   pickle_events pickle_refuses (result_events (runner faulty_world)) =
     Some (TypeError ''cannot pickle an Event'') \<and>
   roundtrip pickle_refuses (runner faulty_world) = Inl (TypeError ''cannot pickle an Event'') \<and>
   started (runner faulty_world) \<and>
   roundtrip pickle_accepts (runner faulty_world) = Inr (unpickled (runner faulty_world)) \<and>
   runner (init_world\<lparr>runner := unpickled (runner faulty_world)\<rparr>) =
     unpickled (runner faulty_world) \<and>
   concurrent_submit_sync (init_world\<lparr>runner := unpickled (runner faulty_world)\<rparr>) 1 call_ok =
     Inl (RuntimeError
           ''The concurrent task runner cannot be used to submit work after serialization.'',
          init_world\<lparr>runner := unpickled (runner faulty_world)\<rparr>) \<and>
   start concurrent_start_hook (unpickled (runner faulty_world)) =
     Inl (RuntimeError ''The task runner is already started!'',
          unpickled (runner faulty_world))"
proof -
  have e0: "result_events concurrent_init = []" and n0: "\<not> started concurrent_init"
    and e1: "result_events (runner faulty_world) = [(1, False)]"
    and s1: "started (runner faulty_world)"
    by (simp_all add: concurrent_init_def base_init_def faulty_world_def started_world_def
        concurrent_start_hook_def Let_def)
  have r0: "roundtrip pickle_refuses concurrent_init = Inr (unpickled concurrent_init)"
    using e0 by (simp add: roundtrip_def unpickled_def getstate_def Let_def)
  have p1: "pickle_events pickle_refuses (result_events (runner faulty_world)) =
     Some (TypeError ''cannot pickle an Event'')"
    by (simp add: e1 pickle_refuses_def)
  have r1: "roundtrip pickle_accepts (runner faulty_world) =
            Inr (unpickled (runner faulty_world))"
    using e1 by (simp add: roundtrip_def unpickled_def getstate_def pickle_accepts_def Let_def)
  have rw: "runner (init_world\<lparr>runner := unpickled (runner faulty_world)\<rparr>) =
     unpickled (runner faulty_world)" by simp
  from serialization_roundtrip [where self = concurrent_init and pickle_event = pickle_refuses
      and copy = "unpickled concurrent_init" and key = 1 and call = call_ok] r0 n0
  have a: "\<exists>s1 s2. start concurrent_start_hook (unpickled concurrent_init) = Inr s1 \<and>
            concurrent_submit s1 1 call_ok = Inr s2"
    by blast
  from serialization_roundtrip [where self = "runner faulty_world"
      and pickle_event = pickle_refuses and e = "TypeError ''cannot pickle an Event''"] p1
  have c: "roundtrip pickle_refuses (runner faulty_world) =
           Inl (TypeError ''cannot pickle an Event'')"
    by blast
  note t = serialization_roundtrip [where self = "runner faulty_world"
      and pickle_event = pickle_accepts and copy = "unpickled (runner faulty_world)"
      and key = 1 and call = call_ok
      and w = "init_world\<lparr>runner := unpickled (runner faulty_world)\<rparr>"]
  from t r1 rw s1
  have b: "concurrent_submit_sync (init_world\<lparr>runner := unpickled (runner faulty_world)\<rparr>)
        1 call_ok =
     Inl (RuntimeError
           ''The concurrent task runner cannot be used to submit work after serialization.'',
          init_world\<lparr>runner := unpickled (runner faulty_world)\<rparr>)"
    by simp
  from t r1 s1
  have d: "start concurrent_start_hook (unpickled (runner faulty_world)) =
     Inl (RuntimeError ''The task runner is already started!'',
          unpickled (runner faulty_world))"
    by blast
  from e0 n0 r0 a p1 c s1 r1 rw b d show ?thesis by blast
qed


section \<open>Equality and duplication\<close>

lemma map_of_public:
  "map_of (public d) k = (if prefix ''_'' k then None else map_of d k)"
  by (induction d) (auto simp: public_def)

lemma distinct_public: "distinct (map fst d) \<Longrightarrow> distinct (map fst (public d))"
  by (simp add: public_def distinct_map_filter)

lemma length_card_dom:
  assumes "distinct (map fst a)"
  shows "length a = card (dom (map_of a))"
proof -
  have "card (dom (map_of a)) = card (set (map fst a))"
    by (simp add: dom_map_of_conv_image_fst)
  also have "\<dots> = length (map fst a)"
    using assms by (rule distinct_card)
  finally show ?thesis by simp
qed

lemma dict_eq_iff:
  assumes da: "distinct (map fst a)" and db: "distinct (map fst b)"
  shows "dict_eq a b \<longleftrightarrow> map_of a = map_of b"
proof
  assume e: "dict_eq a b"
  then have len: "length a = length b"
    and sub: "\<And>k v. (k, v) \<in> set a \<Longrightarrow> map_of b k = Some v"
    by (auto simp: dict_eq_def)
  have le: "\<And>k v. map_of a k = Some v \<Longrightarrow> map_of b k = Some v"
    using sub by (blast dest: map_of_SomeD)
  then have "dom (map_of a) \<subseteq> dom (map_of b)" by auto
  moreover have "card (dom (map_of a)) = card (dom (map_of b))"
    using len length_card_dom [OF da] length_card_dom [OF db] by simp
  ultimately have deq: "dom (map_of a) = dom (map_of b)"
    by (simp add: card_subset_eq finite_dom_map_of)
  show "map_of a = map_of b"
  proof
    fix k
    show "map_of a k = map_of b k"
    proof (cases "map_of a k")
      case None
      then have "k \<notin> dom (map_of b)" using deq by (auto simp: domIff)
      with None show ?thesis by (simp add: domIff)
    next
      case (Some v)
      with le show ?thesis by simp
    qed
  qed
next
  assume m: "map_of a = map_of b"
  have "length a = length b"
    using length_card_dom [OF da] length_card_dom [OF db] m by simp
  moreover have "\<forall>(k, v) \<in> set a. map_of b k = Some v"
    using da m [symmetric] by auto
  ultimately show "dict_eq a b" by (simp add: dict_eq_def)
qed

lemma public_maps_eq:
  "map_of (public a) = map_of (public b) \<longleftrightarrow>
   (\<forall>k. \<not> prefix ''_'' k \<longrightarrow> map_of a k = map_of b k)"
  by (auto simp: fun_eq_iff map_of_public)

text \<open>
  Claim C8. For two objects whose \<open>__dict__\<close> are dictionaries, \<open>__eq__\<close> returns
  \<open>True\<close> exactly when they have the same type and the same public attributes (those
  whose name does not start with an underscore) with the same values. It never returns
  \<open>False\<close>: in every other case, a different type among them, the answer is
  \<open>NotImplemented\<close>.
\<close>

theorem equality_semantics:
  assumes "distinct (map fst (dict_of a))" and "distinct (map fst (dict_of b))"
  shows "(eq a b = Value True \<longleftrightarrow>
            type_of b = type_of a \<and>
            (\<forall>k. \<not> prefix ''_'' k \<longrightarrow> map_of (dict_of a) k = map_of (dict_of b) k)) \<and>
         eq a b \<noteq> Value False \<and>
         (type_of b \<noteq> type_of a \<longrightarrow> eq a b = NotImplemented)"
proof -
  have "dict_eq (public (dict_of a)) (public (dict_of b)) \<longleftrightarrow>
        (\<forall>k. \<not> prefix ''_'' k \<longrightarrow> map_of (dict_of a) k = map_of (dict_of b) k)"
    using assms by (simp add: dict_eq_iff distinct_public public_maps_eq)
  then show ?thesis by (simp add: eq_def)
qed

theorem equality_semantics_witness:
  "distinct (map fst (dict_of (sequential_obj sequential_init))) \<and>
   distinct (map fst (dict_of (sequential_obj (sequential_submit sequential_init 1 call_ok)))) \<and>
   eq (sequential_obj sequential_init) (sequential_obj (sequential_submit sequential_init 1 call_ok))
     = Value True \<and>
   type_of (concurrent_obj concurrent_init) \<noteq> type_of (sequential_obj sequential_init) \<and>
   distinct (map fst (dict_of (concurrent_obj concurrent_init))) \<and>
   eq (sequential_obj sequential_init) (concurrent_obj concurrent_init) = NotImplemented"
proof -
  have d1: "distinct (map fst (dict_of (sequential_obj sequential_init)))"
    and d2: "distinct (map fst (dict_of (sequential_obj (sequential_submit sequential_init 1 call_ok))))"
    and d3: "distinct (map fst (dict_of (concurrent_obj concurrent_init)))"
    by (simp_all add: sequential_obj_def concurrent_obj_def)
  have t: "type_of (concurrent_obj concurrent_init) \<noteq> type_of (sequential_obj sequential_init)"
    by (simp add: sequential_obj_def concurrent_obj_def)
  have p: "\<forall>k. \<not> prefix ''_'' k \<longrightarrow>
     map_of (dict_of (sequential_obj sequential_init)) k =
     map_of (dict_of (sequential_obj (sequential_submit sequential_init 1 call_ok))) k"
    by (simp add: sequential_obj_def sequential_submit_def Let_def)
  show ?thesis
    using equality_semantics [OF d1 d2] equality_semantics [OF d1 d3] d1 d2 d3 t p
    by (simp add: sequential_obj_def)
qed

text \<open>
  Claim C9. The base \<open>duplicate\<close> returns \<open>NotImplemented\<close>. The Sequential and the
  Concurrent runner return a new instance of their own type, as \<open>__init__\<close> makes it: not
  started, with an empty Result Table, no signals, no futures and no resources, so that
  it shares nothing with the original. A runner that still has the logger \<open>__init__\<close>
  gave it is equal to its duplicate under \<open>__eq__\<close>, in both directions.
\<close>

theorem duplicate_semantics:
  "base_duplicate x = NotImplemented \<and>
   sequential_duplicate sself = sequential_init \<and>
   \<not> started (sequential_duplicate sself) \<and>
   seq_results (sequential_duplicate sself) = [] \<and>
   (logger sself = logger sequential_init \<longrightarrow>
      eq (sequential_obj (sequential_duplicate sself)) (sequential_obj sself) = Value True \<and>
      eq (sequential_obj sself) (sequential_obj (sequential_duplicate sself)) = Value True) \<and>
   concurrent_duplicate cself = concurrent_init \<and>
   \<not> started (concurrent_duplicate cself) \<and>
   results (concurrent_duplicate cself) = [] \<and>
   result_events (concurrent_duplicate cself) = [] \<and>
   futures (concurrent_duplicate cself) = [] \<and>
   keys (concurrent_duplicate cself) = {} \<and>
   task_group (concurrent_duplicate cself) = None \<and>
   executor (concurrent_duplicate cself) = None \<and>
   (logger cself = logger concurrent_init \<longrightarrow>
      eq (concurrent_obj (concurrent_duplicate cself)) (concurrent_obj cself) = Value True \<and>
      eq (concurrent_obj cself) (concurrent_obj (concurrent_duplicate cself)) = Value True)"
  by (simp add: base_duplicate_def sequential_duplicate_def concurrent_duplicate_def
      sequential_init_def concurrent_init_def base_init_def Let_def
      eq_def sequential_obj_def concurrent_obj_def public_def dict_eq_def)

theorem duplicate_semantics_witness:
  "logger (sequential_submit sequential_init 1 call_ok) = logger sequential_init \<and>
   eq (sequential_obj (sequential_duplicate (sequential_submit sequential_init 1 call_ok)))
      (sequential_obj (sequential_submit sequential_init 1 call_ok)) = Value True \<and>
   logger (runner started_world) = logger concurrent_init \<and>
   eq (concurrent_obj (concurrent_duplicate (runner started_world)))
      (concurrent_obj (runner started_world)) = Value True"
proof -
  have l1: "logger (sequential_submit sequential_init 1 call_ok) = logger sequential_init"
    by (simp add: sequential_submit_def Let_def)
  have l2: "logger (runner started_world) = logger concurrent_init"
    by (simp add: started_world_def concurrent_start_hook_def)
  show ?thesis
    using duplicate_semantics [of x "sequential_submit sequential_init 1 call_ok"
        "runner started_world"] l1 l2
    by blast
qed


section \<open>Steps of the concurrent runner\<close>

lemma run_and_store_result_eq:
  assumes "map_of (result_events self) key \<noteq> None"
  shows "run_and_store_result self key call =
     Inr (self\<lparr>results := AList.update key
                 (case call () of Inr r \<Rightarrow> r | Inl e \<Rightarrow> exception_to_crashed_state e)
                 (results self),
               result_events := AList.update key True (result_events self)\<rparr>)"
  using assms by (auto simp: run_and_store_result_def Let_def)


lemma work_completes_eq:
  assumes "executor (runner w) = Some ex" and "i < length (work_queue ex)"
    and "work_queue ex ! i = (fut, key, call)"
  shows "work_completes w i =
     Some (w\<lparr>runner := (runner w)\<lparr>
        executor := Some (ThreadPoolExecutor (shutdown ex) (remove_nth i (work_queue ex))),
        results := AList.update key
          (case call () of Inr r \<Rightarrow> r | Inl e \<Rightarrow> exception_to_crashed_state e)
          (results (runner w))\<rparr>,
       heap := (heap w)[fut := True]\<rparr>)"
  using assms by (simp add: work_completes_def run_and_store_result_sync_def Let_def)

lemma concurrent_submit_ready:
  assumes "started self" and "task_group self = Some tg" and "active tg"
  shows "concurrent_submit self key call =
     Inr (self\<lparr>result_events := AList.update key False (result_events self),
               task_group := Some (TaskGroup True (children tg @ [(key, call)]))\<rparr>)"
  using assms by (simp add: concurrent_submit_def start_soon_def Let_def)

lemma concurrent_submit_sync_ready:
  assumes "started (runner w)" and "executor (runner w) = Some ex" and "\<not> shutdown ex"
  shows "concurrent_submit_sync w key call =
     Inr (w\<lparr>runner := (runner w)\<lparr>
        executor := Some (ThreadPoolExecutor False (work_queue ex @ [(length (heap w), key, call)])),
        futures := AList.update key (length (heap w)) (futures (runner w))\<rparr>,
       heap := heap w @ [False]\<rparr>)"
  using assms by (simp add: concurrent_submit_sync_def executor_submit_def Let_def)

section \<open>Fault containment\<close>

lemma cooperative_fault:
  assumes "call () = Inl e" and "map_of (result_events self) key \<noteq> None"
  shows "\<exists>s. run_and_store_result self key call = Inr s \<and>
             map_of (results s) key = Some (exception_to_crashed_state e) \<and>
             started s = started self \<and> task_group s = task_group self \<and>
             executor s = executor self \<and> futures s = futures self \<and>
             (task_group self \<noteq> None \<and> map_of (futures self) key = None \<longrightarrow>
                concurrent_wait (w\<lparr>runner := s\<rparr>) key timeout waited =
                  Returned (Some (exception_to_crashed_state e)))"
  using assms
  by (auto simp: run_and_store_result_eq concurrent_wait_def get_run_result_def
      map_of_update_same)

lemma blocking_fault:
  assumes "call () = Inl e" and "executor (runner w) = Some ex" and "i < length (work_queue ex)"
    and "work_queue ex ! i = (fut, key, call)"
  shows "\<exists>w'. work_completes w i = Some w' \<and>
             map_of (results (runner w')) key = Some (exception_to_crashed_state e) \<and>
             started (runner w') = started (runner w) \<and>
             task_group (runner w') = task_group (runner w) \<and>
             futures (runner w') = futures (runner w) \<and>
             (\<exists>ex'. executor (runner w') = Some ex' \<and> shutdown ex' = shutdown ex) \<and>
             (map_of (futures (runner w)) key = Some fut \<and> fut < length (heap w) \<longrightarrow>
                concurrent_wait_sync w' key timeout waited =
                  Returned (Some (exception_to_crashed_state e)))"
  using assms
  by (auto simp: work_completes_eq concurrent_wait_sync_def future_done_def map_of_update_same)

lemma sequential_fault:
  assumes "call () = Inl e"
  shows "seq_results (sequential_submit sself key call) =
           AList.update key (exception_to_crashed_state e) (seq_results sself) \<and>
         started (sequential_submit sself key call) = started sself \<and>
         sequential_wait (sequential_submit sself key call) key timeout =
           Inr (Some (exception_to_crashed_state e))"
  using assms by (simp add: sequential_submit_def sequential_wait_def map_of_update_same)

text \<open>
  Claim C1. Let the submitted callable raise \<open>e\<close>. On each path the fault is caught
  where the call is executed and the crashed Outcome made from it is written to the
  Result Table under the key: by the Sequential runner's \<open>submit\<close>, by
  \<open>_run_and_store_result\<close> on the cooperative path (for a key that has its completion
  signal, as every key accepted by \<open>submit\<close> has), by \<open>_run_and_store_result_sync\<close> and
  the worker on the blocking path. Neither the submitter nor the waiter sees the fault:
  \<open>submit\<close> and \<open>submit_sync\<close> on a started runner with live resources return normally,
  and \<open>wait\<close> and \<open>wait_sync\<close> return the crashed Outcome. The execution leaves the
  lifecycle state, the resources and the futures as they were, so the runner accepts
  further work as before.
\<close>

theorem fault_containment:
  assumes "call () = Inl e"
  shows "is_crashed (exception_to_crashed_state e) \<and>
    run_and_store_result_sync self key call =
      self\<lparr>results := AList.update key (exception_to_crashed_state e) (results self)\<rparr> \<and>
    (seq_results (sequential_submit sself key call) =
       AList.update key (exception_to_crashed_state e) (seq_results sself) \<and>
     started (sequential_submit sself key call) = started sself \<and>
     sequential_wait (sequential_submit sself key call) key timeout =
       Inr (Some (exception_to_crashed_state e))) \<and>
    (started self \<and> task_group self = Some tg \<and> active tg \<longrightarrow>
       (\<exists>s. concurrent_submit self key call = Inr s \<and>
            map_of (result_events s) key = Some False \<and>
            task_group s = Some (TaskGroup True (children tg @ [(key, call)])))) \<and>
    (map_of (result_events self) key \<noteq> None \<longrightarrow>
       (\<exists>s. run_and_store_result self key call = Inr s \<and>
             map_of (results s) key = Some (exception_to_crashed_state e) \<and>
             started s = started self \<and> task_group s = task_group self \<and>
             executor s = executor self \<and> futures s = futures self \<and>
             (task_group self \<noteq> None \<and> map_of (futures self) key = None \<longrightarrow>
                concurrent_wait (w\<lparr>runner := s\<rparr>) key timeout waited =
                  Returned (Some (exception_to_crashed_state e))))) \<and>
    (started (runner w) \<and> executor (runner w) = Some ex \<and> \<not> shutdown ex \<longrightarrow>
       (\<exists>w1. concurrent_submit_sync w key call = Inr w1 \<and>
             executor (runner w1) =
               Some (ThreadPoolExecutor False (work_queue ex @ [(length (heap w), key, call)])) \<and>
             map_of (futures (runner w1)) key = Some (length (heap w)))) \<and>
    (executor (runner w) = Some ex \<and> i < length (work_queue ex) \<and>
     work_queue ex ! i = (fut, key, call) \<longrightarrow>
       (\<exists>w'. work_completes w i = Some w' \<and>
             map_of (results (runner w')) key = Some (exception_to_crashed_state e) \<and>
             started (runner w') = started (runner w) \<and>
             task_group (runner w') = task_group (runner w) \<and>
             futures (runner w') = futures (runner w) \<and>
             (\<exists>ex'. executor (runner w') = Some ex' \<and> shutdown ex' = shutdown ex) \<and>
             (map_of (futures (runner w)) key = Some fut \<and> fut < length (heap w) \<longrightarrow>
                concurrent_wait_sync w' key timeout waited =
                  Returned (Some (exception_to_crashed_state e)))))"
proof (intro conjI impI)
  show "is_crashed (exception_to_crashed_state e)"
    by (simp add: exception_to_crashed_state_def)
  show "run_and_store_result_sync self key call =
      self\<lparr>results := AList.update key (exception_to_crashed_state e) (results self)\<rparr>"
    using assms by (simp add: run_and_store_result_sync_def)
  show "seq_results (sequential_submit sself key call) =
       AList.update key (exception_to_crashed_state e) (seq_results sself)"
    and "started (sequential_submit sself key call) = started sself"
    and "sequential_wait (sequential_submit sself key call) key timeout =
       Inr (Some (exception_to_crashed_state e))"
    using sequential_fault [of call e sself key timeout] assms by simp_all
next
  assume "started self \<and> task_group self = Some tg \<and> active tg"
  then show "\<exists>s. concurrent_submit self key call = Inr s \<and>
            map_of (result_events s) key = Some False \<and>
            task_group s = Some (TaskGroup True (children tg @ [(key, call)]))"
    by (simp add: concurrent_submit_ready map_of_update_same)
next
  assume "map_of (result_events self) key \<noteq> None"
  then show "\<exists>s. run_and_store_result self key call = Inr s \<and>
             map_of (results s) key = Some (exception_to_crashed_state e) \<and>
             started s = started self \<and> task_group s = task_group self \<and>
             executor s = executor self \<and> futures s = futures self \<and>
             (task_group self \<noteq> None \<and> map_of (futures self) key = None \<longrightarrow>
                concurrent_wait (w\<lparr>runner := s\<rparr>) key timeout waited =
                  Returned (Some (exception_to_crashed_state e)))"
    using cooperative_fault [of call e self key w timeout waited] assms by simp
next
  assume "started (runner w) \<and> executor (runner w) = Some ex \<and> \<not> shutdown ex"
  then show "\<exists>w1. concurrent_submit_sync w key call = Inr w1 \<and>
             executor (runner w1) =
               Some (ThreadPoolExecutor False (work_queue ex @ [(length (heap w), key, call)])) \<and>
             map_of (futures (runner w1)) key = Some (length (heap w))"
    by (simp add: concurrent_submit_sync_ready map_of_update_same)
next
  assume "executor (runner w) = Some ex \<and> i < length (work_queue ex) \<and>
     work_queue ex ! i = (fut, key, call)"
  then show "\<exists>w'. work_completes w i = Some w' \<and>
             map_of (results (runner w')) key = Some (exception_to_crashed_state e) \<and>
             started (runner w') = started (runner w) \<and>
             task_group (runner w') = task_group (runner w) \<and>
             futures (runner w') = futures (runner w) \<and>
             (\<exists>ex'. executor (runner w') = Some ex' \<and> shutdown ex' = shutdown ex) \<and>
             (map_of (futures (runner w)) key = Some fut \<and> fut < length (heap w) \<longrightarrow>
                concurrent_wait_sync w' key timeout waited =
                  Returned (Some (exception_to_crashed_state e)))"
    using blocking_fault [of call e w ex i fut key timeout waited] assms by simp
qed


theorem fault_containment_witness:
  "call_boom () = Inl (Exc ''ValueError'' ''boom'') \<and>
   sequential_wait (sequential_submit sequential_init 1 call_boom) 1 None =
     Inr (Some (Crashed (Exc ''ValueError'' ''boom''))) \<and>
   (started (runner started_world) \<and>
    task_group (runner started_world) = Some (TaskGroup True []) \<and> active (TaskGroup True [])) \<and>
   (\<exists>s. concurrent_submit (runner started_world) 1 call_boom = Inr s) \<and>
   map_of (result_events (runner faulty_world)) 1 \<noteq> None \<and>
   (task_group (runner faulty_world) \<noteq> None \<and> map_of (futures (runner faulty_world)) 1 = None) \<and>
   (\<exists>s. run_and_store_result (runner faulty_world) 1 call_boom = Inr s \<and>
        concurrent_wait (faulty_world\<lparr>runner := s\<rparr>) 1 None 0 =
          Returned (Some (Crashed (Exc ''ValueError'' ''boom'')))) \<and>
   (started (runner faulty_world) \<and>
    executor (runner started_world) = Some (ThreadPoolExecutor False []) \<and>
    \<not> shutdown (ThreadPoolExecutor False [])) \<and>
   (\<exists>w1. concurrent_submit_sync started_world 2 call_boom = Inr w1) \<and>
   (executor (runner faulty_world) = Some (ThreadPoolExecutor False [(0, 2, call_boom)]) \<and>
    0 < length (work_queue (ThreadPoolExecutor False [(0, 2, call_boom)])) \<and>
    work_queue (ThreadPoolExecutor False [(0, 2, call_boom)]) ! 0 = (0, 2, call_boom) \<and>
    map_of (futures (runner faulty_world)) 2 = Some 0 \<and> 0 < length (heap faulty_world)) \<and>
   (\<exists>w'. work_completes faulty_world 0 = Some w' \<and>
         concurrent_wait_sync w' 2 None 0 =
           Returned (Some (Crashed (Exc ''ValueError'' ''boom''))))"
proof -
  have boom: "call_boom () = Inl (Exc ''ValueError'' ''boom'')"
    by (simp add: call_boom_def)
  have ready: "started (runner started_world) \<and>
      task_group (runner started_world) = Some (TaskGroup True []) \<and> active (TaskGroup True [])"
    and ready_sync: "started (runner faulty_world) \<and>
      executor (runner started_world) = Some (ThreadPoolExecutor False []) \<and>
      \<not> shutdown (ThreadPoolExecutor False [])"
    and st: "started (runner started_world)"
    by (simp_all add: started_world_def faulty_world_def concurrent_start_hook_def)
  have ev: "map_of (result_events (runner faulty_world)) 1 \<noteq> None"
    and route: "task_group (runner faulty_world) \<noteq> None \<and>
      map_of (futures (runner faulty_world)) 1 = None"
    and item: "executor (runner faulty_world) = Some (ThreadPoolExecutor False [(0, 2, call_boom)]) \<and>
      0 < length (work_queue (ThreadPoolExecutor False [(0, 2, call_boom)])) \<and>
      work_queue (ThreadPoolExecutor False [(0, 2, call_boom)]) ! 0 = (0, 2, call_boom) \<and>
      map_of (futures (runner faulty_world)) 2 = Some 0 \<and> 0 < length (heap faulty_world)"
    by (simp_all add: faulty_world_def)
  note a = fault_containment [where call = call_boom and e = "Exc ''ValueError'' ''boom''"
      and self = "runner started_world" and key = 1 and sself = sequential_init
      and timeout = None and tg = "TaskGroup True []" and w = started_world and waited = 0
      and ex = "ThreadPoolExecutor False []" and i = 0 and fut = 0,
      OF boom, unfolded exception_to_crashed_state_def]
  note b = fault_containment [where call = call_boom and e = "Exc ''ValueError'' ''boom''"
      and self = "runner faulty_world" and key = 1 and sself = sequential_init
      and timeout = None and tg = "TaskGroup True []" and w = faulty_world and waited = 0
      and ex = "ThreadPoolExecutor False [(0, 2, call_boom)]" and i = 0 and fut = 0,
      OF boom, unfolded exception_to_crashed_state_def]
  note c = fault_containment [where call = call_boom and e = "Exc ''ValueError'' ''boom''"
      and self = "runner faulty_world" and key = 2 and sself = sequential_init
      and timeout = None and tg = "TaskGroup True []" and w = faulty_world and waited = 0
      and ex = "ThreadPoolExecutor False [(0, 2, call_boom)]" and i = 0 and fut = 0,
      OF boom, unfolded exception_to_crashed_state_def]
  note d = fault_containment [where call = call_boom and e = "Exc ''ValueError'' ''boom''"
      and self = "runner started_world" and key = 2 and sself = sequential_init
      and timeout = None and tg = "TaskGroup True []" and w = started_world and waited = 0
      and ex = "ThreadPoolExecutor False []" and i = 0 and fut = 0,
      OF boom, unfolded exception_to_crashed_state_def]
  have 1: "sequential_wait (sequential_submit sequential_init 1 call_boom) 1 None =
     Inr (Some (Crashed (Exc ''ValueError'' ''boom'')))"
    using a by blast
  have 2: "\<exists>s. concurrent_submit (runner started_world) 1 call_boom = Inr s"
    using a ready by blast
  have 3: "\<exists>s. run_and_store_result (runner faulty_world) 1 call_boom = Inr s \<and>
        concurrent_wait (faulty_world\<lparr>runner := s\<rparr>) 1 None 0 =
          Returned (Some (Crashed (Exc ''ValueError'' ''boom'')))"
    using b ev route by blast
  have 4: "\<exists>w1. concurrent_submit_sync started_world 2 call_boom = Inr w1"
    using d ready_sync st by blast
  have 5: "\<exists>w'. work_completes faulty_world 0 = Some w' \<and>
         concurrent_wait_sync w' 2 None 0 =
           Returned (Some (Crashed (Exc ''ValueError'' ''boom'')))"
    using c item by blast
  show ?thesis
    using boom ready ready_sync ev route item 1 2 3 4 5 by blast
qed

section \<open>Timeouts\<close>












section \<open>Invariants of the concurrent runner\<close>

lemma set_remove_nth: "set (remove_nth i xs) \<subseteq> set xs"
  by (auto simp: remove_nth_def dest: in_set_takeD in_set_dropD)

lemma resources_inv_step:
  assumes "resources_inv w" and "step w ev = Some w'"
  shows "resources_inv w'"
proof (cases ev)
  case Start
  with assms show ?thesis
    by (auto simp: resources_inv_def start_def concurrent_start_hook_def split: if_splits)
next
  case StartSync
  with assms show ?thesis
    by (auto simp: resources_inv_def start_def concurrent_start_sync_hook_def split: if_splits)
next
  case ExitScope
  with assms show ?thesis
    by (auto simp: resources_inv_def exit_scope_def start_finally_def Let_def
        split: option.splits if_splits)
next
  case (Submit key call)
  with assms show ?thesis
    by (auto simp: resources_inv_def concurrent_submit_def start_soon_def Let_def
        split: option.splits if_splits)
next
  case (SubmitSync key call)
  with assms show ?thesis
    by (auto simp: resources_inv_def concurrent_submit_sync_def executor_submit_def Let_def
        split: option.splits if_splits)
next
  case (Wait key timeout waited)
  with assms show ?thesis by (auto split: awaited.splits)
next
  case (WaitSync key timeout waited)
  with assms show ?thesis by (auto split: awaited.splits)
next
  case (TaskCompletes i)
  with assms show ?thesis
    by (auto simp: resources_inv_def task_completes_def run_and_store_result_def Let_def
        split: option.splits if_splits prod.splits)
next
  case (WorkCompletes i)
  with assms show ?thesis
    by (auto simp: resources_inv_def work_completes_def run_and_store_result_sync_def Let_def
        split: option.splits if_splits prod.splits)
next
  case RoundTrip
  with assms show ?thesis
    by (auto simp: resources_inv_def unpickled_eq)
qed


lemma map_of_update_neq_None:
  "map_of al k \<noteq> None \<Longrightarrow> map_of (AList.update k' v al) k \<noteq> None"
  by (simp add: update_conv')

lemma signals_inv_step:
  assumes "signals_inv w" and "step w ev = Some w'"
  shows "signals_inv w'"
proof (cases ev)
  case Start
  with assms show ?thesis
    by (auto simp: signals_inv_def start_def concurrent_start_hook_def split: if_splits)
next
  case StartSync
  with assms show ?thesis
    by (auto simp: signals_inv_def start_def concurrent_start_sync_hook_def split: if_splits)
next
  case ExitScope
  with assms show ?thesis
    by (auto simp: signals_inv_def exit_scope_def start_finally_def Let_def
        split: option.splits if_splits)
next
  case (Submit key call)
  with assms show ?thesis
    by (auto simp: signals_inv_def concurrent_submit_def start_soon_def Let_def update_conv'
        split: option.splits if_splits)
next
  case (SubmitSync key call)
  with assms show ?thesis
    by (auto simp: signals_inv_def concurrent_submit_sync_def executor_submit_def Let_def
        split: option.splits if_splits)
next
  case (Wait key timeout waited)
  with assms show ?thesis by (auto split: awaited.splits)
next
  case (WaitSync key timeout waited)
  with assms show ?thesis by (auto split: awaited.splits)
next
  case (TaskCompletes i)
  with assms show ?thesis
    by (auto simp: signals_inv_def task_completes_def run_and_store_result_def Let_def
        update_conv' split: option.splits if_splits prod.splits)
next
  case (WorkCompletes i)
  with assms show ?thesis
    by (auto simp: signals_inv_def work_completes_def run_and_store_result_sync_def Let_def
        update_conv' split: option.splits if_splits prod.splits)
next
  case RoundTrip
  with assms show ?thesis
    by (auto simp: signals_inv_def unpickled_eq)
qed

lemma futures_invI:
  assumes "\<And>k a. map_of (futures (runner w)) k = Some a \<Longrightarrow> a < length (heap w)"
    and "\<And>k a. map_of (futures (runner w)) k = Some a \<Longrightarrow> heap w ! a \<Longrightarrow>
           map_of (results (runner w)) k \<noteq> None"
    and "\<And>ex a k' c. executor (runner w) = Some ex \<Longrightarrow> (a, k', c) \<in> set (work_queue ex) \<Longrightarrow>
           a < length (heap w)"
    and "\<And>ex a k' c k. executor (runner w) = Some ex \<Longrightarrow> (a, k', c) \<in> set (work_queue ex) \<Longrightarrow>
           map_of (futures (runner w)) k = Some a \<Longrightarrow> k = k'"
  shows "futures_inv w"
  unfolding futures_inv_def using assms by blast

lemma futures_inv_bound:
  "futures_inv w \<Longrightarrow> map_of (futures (runner w)) k = Some a \<Longrightarrow> a < length (heap w)"
  by (simp add: futures_inv_def)

lemma futures_inv_done:
  "futures_inv w \<Longrightarrow> map_of (futures (runner w)) k = Some a \<Longrightarrow> heap w ! a \<Longrightarrow>
   map_of (results (runner w)) k \<noteq> None"
  by (simp add: futures_inv_def)

lemma futures_inv_queue_bound:
  "futures_inv w \<Longrightarrow> executor (runner w) = Some ex \<Longrightarrow> (a, k', c) \<in> set (work_queue ex) \<Longrightarrow>
   a < length (heap w)"
  unfolding futures_inv_def by blast

lemma futures_inv_owner:
  "futures_inv w \<Longrightarrow> executor (runner w) = Some ex \<Longrightarrow> (a, k', c) \<in> set (work_queue ex) \<Longrightarrow>
   map_of (futures (runner w)) k = Some a \<Longrightarrow> k = k'"
  unfolding futures_inv_def by blast

lemma futures_inv_frame:
  assumes inv: "futures_inv w" and h: "heap w' = heap w"
    and f: "futures (runner w') = futures (runner w)"
    and r: "\<And>k. map_of (results (runner w)) k \<noteq> None \<Longrightarrow> map_of (results (runner w')) k \<noteq> None"
    and q: "\<And>ex'. executor (runner w') = Some ex' \<Longrightarrow>
           \<exists>ex. executor (runner w) = Some ex \<and> set (work_queue ex') \<subseteq> set (work_queue ex)"
  shows "futures_inv w'"
proof (rule futures_invI)
  fix k a assume "map_of (futures (runner w')) k = Some a"
  then have f0: "map_of (futures (runner w)) k = Some a" using f by simp
  show "a < length (heap w')"
    using futures_inv_bound [OF inv f0] h by simp
  assume "heap w' ! a"
  then have "heap w ! a" using h by simp
  then show "map_of (results (runner w')) k \<noteq> None"
    using futures_inv_done [OF inv f0] r by blast
next
  fix ex' a k' c assume e: "executor (runner w') = Some ex'"
    and m: "(a, k', c) \<in> set (work_queue ex')"
  from q [OF e] obtain ex where ex: "executor (runner w) = Some ex"
    and sub: "set (work_queue ex') \<subseteq> set (work_queue ex)"
    by blast
  from m sub have m0: "(a, k', c) \<in> set (work_queue ex)" by blast
  show "a < length (heap w')"
    using futures_inv_queue_bound [OF inv ex m0] h by simp
  fix k assume "map_of (futures (runner w')) k = Some a"
  then have "map_of (futures (runner w)) k = Some a" using f by simp
  then show "k = k'" by (rule futures_inv_owner [OF inv ex m0])
qed

lemma futures_inv_new_executor:
  assumes inv: "futures_inv w" and h: "heap w' = heap w"
    and f: "futures (runner w') = futures (runner w)"
    and r: "results (runner w') = results (runner w)"
    and e: "executor (runner w') = Some (ThreadPoolExecutor False [])"
  shows "futures_inv w'"
proof (rule futures_invI)
  fix k a assume "map_of (futures (runner w')) k = Some a"
  then have f0: "map_of (futures (runner w)) k = Some a" using f by simp
  show "a < length (heap w')"
    using futures_inv_bound [OF inv f0] h by simp
  assume "heap w' ! a"
  then have "heap w ! a" using h by simp
  then show "map_of (results (runner w')) k \<noteq> None"
    using futures_inv_done [OF inv f0] r by simp
next
  fix ex' a k' c assume "executor (runner w') = Some ex'"
    and m: "(a, k', c) \<in> set (work_queue ex')"
  with e have False by auto
  then show "a < length (heap w')" ..
  fix k
  from \<open>False\<close> show "k = k'" ..
qed

lemma futures_inv_submit_sync:
  assumes inv: "futures_inv w" and ex: "executor (runner w) = Some ex"
    and w': "w' = w\<lparr>runner := (runner w)\<lparr>
        executor := Some (ThreadPoolExecutor False (work_queue ex @ [(length (heap w), key, call)])),
        futures := AList.update key (length (heap w)) (futures (runner w))\<rparr>,
       heap := heap w @ [False]\<rparr>"
  shows "futures_inv w'"
proof (rule futures_invI)
  fix k a assume f: "map_of (futures (runner w')) k = Some a"
  show "a < length (heap w')"
  proof (cases "k = key")
    case True
    with f show ?thesis by (simp add: w' update_conv')
  next
    case False
    with f have "map_of (futures (runner w)) k = Some a" by (simp add: w' update_conv')
    then have "a < length (heap w)" by (rule futures_inv_bound [OF inv])
    then show ?thesis by (simp add: w')
  qed
  assume h: "heap w' ! a"
  show "map_of (results (runner w')) k \<noteq> None"
  proof (cases "k = key")
    case True
    with f have "a = length (heap w)" by (simp add: w' update_conv')
    with h show ?thesis by (simp add: w' nth_append)
  next
    case False
    with f have f0: "map_of (futures (runner w)) k = Some a" by (simp add: w' update_conv')
    then have "a < length (heap w)" by (rule futures_inv_bound [OF inv])
    with h have "heap w ! a" by (simp add: w' nth_append)
    with f0 have "map_of (results (runner w)) k \<noteq> None" by (rule futures_inv_done [OF inv])
    then show ?thesis by (simp add: w')
  qed
next
  fix ex' a k' c assume e: "executor (runner w') = Some ex'"
    and m: "(a, k', c) \<in> set (work_queue ex')"
  from e have q: "work_queue ex' = work_queue ex @ [(length (heap w), key, call)]"
    by (auto simp: w')
  from m q have m0: "(a, k', c) \<in> set (work_queue ex) \<or> (a = length (heap w) \<and> k' = key)"
    by auto
  then show "a < length (heap w')"
    using futures_inv_queue_bound [OF inv ex, of a k' c] by (auto simp: w')
  fix k assume f: "map_of (futures (runner w')) k = Some a"
  show "k = k'"
  proof (cases "k = key")
    case True
    with f have a: "a = length (heap w)" by (simp add: w' update_conv')
    with m0 futures_inv_queue_bound [OF inv ex, of a k' c] have "k' = key" by auto
    with True show ?thesis by simp
  next
    case False
    with f have f0: "map_of (futures (runner w)) k = Some a" by (simp add: w' update_conv')
    then have "a < length (heap w)" by (rule futures_inv_bound [OF inv])
    with m0 have "(a, k', c) \<in> set (work_queue ex)" by auto
    then show ?thesis using f0 by (rule futures_inv_owner [OF inv ex])
  qed
qed

lemma futures_inv_work_completes:
  assumes inv: "futures_inv w" and ex: "executor (runner w) = Some ex"
    and i: "i < length (work_queue ex)" and item: "work_queue ex ! i = (fut, key, call)"
    and w': "work_completes w i = Some w'"
  shows "futures_inv w'"
proof -
  have w'_eq: "w' = w\<lparr>runner := (runner w)\<lparr>
        executor := Some (ThreadPoolExecutor (shutdown ex) (remove_nth i (work_queue ex))),
        results := AList.update key
          (case call () of Inr r \<Rightarrow> r | Inl e \<Rightarrow> exception_to_crashed_state e)
          (results (runner w))\<rparr>,
       heap := (heap w)[fut := True]\<rparr>"
    using w' work_completes_eq [OF ex i item] by simp
  have mem: "(fut, key, call) \<in> set (work_queue ex)"
    using i item by (metis nth_mem)
  show ?thesis
  proof (rule futures_invI)
    fix k a assume f: "map_of (futures (runner w')) k = Some a"
    then have f0: "map_of (futures (runner w)) k = Some a" by (simp add: w'_eq)
    show "a < length (heap w')"
      using futures_inv_bound [OF inv f0] by (simp add: w'_eq)
    assume h: "heap w' ! a"
    show "map_of (results (runner w')) k \<noteq> None"
    proof (cases "a = fut")
      case True
      with f0 have "k = key" using futures_inv_owner [OF inv ex mem] by simp
      then show ?thesis by (simp add: w'_eq update_conv')
    next
      case False
      with h have "heap w ! a" by (simp add: w'_eq)
      with f0 have "map_of (results (runner w)) k \<noteq> None" by (rule futures_inv_done [OF inv])
      then show ?thesis by (simp add: w'_eq update_conv')
    qed
  next
    fix ex' a k' c assume e: "executor (runner w') = Some ex'"
      and m: "(a, k', c) \<in> set (work_queue ex')"
    from e have q: "work_queue ex' = remove_nth i (work_queue ex)"
      by (auto simp: w'_eq)
    from m q set_remove_nth [of i "work_queue ex"]
    have m0: "(a, k', c) \<in> set (work_queue ex)" by auto
    show "a < length (heap w')"
      using futures_inv_queue_bound [OF inv ex m0] by (simp add: w'_eq)
    fix k assume "map_of (futures (runner w')) k = Some a"
    then have "map_of (futures (runner w)) k = Some a" by (simp add: w'_eq)
    then show "k = k'" by (rule futures_inv_owner [OF inv ex m0])
  qed
qed

lemma futures_inv_step:
  assumes "futures_inv w" and "step w ev = Some w'"
  shows "futures_inv w'"
proof (cases ev)
  case Start
  show ?thesis
  proof (cases "started (runner w)")
    case True
    with Start assms show ?thesis by (simp add: start_def)
  next
    case False
    with Start assms(2) have "w' = w\<lparr>runner := (concurrent_start_hook (runner w))\<lparr>started := True\<rparr>,
        scope := Some AsyncScope\<rparr>"
      by (simp add: start_def)
    then show ?thesis
      by (intro futures_inv_new_executor [OF assms(1)]) (simp_all add: concurrent_start_hook_def)
  qed
next
  case StartSync
  show ?thesis
  proof (cases "started (runner w)")
    case True
    with StartSync assms show ?thesis by (simp add: start_def)
  next
    case False
    with StartSync assms(2) have "w' = w\<lparr>runner := (concurrent_start_sync_hook (runner w))\<lparr>started := True\<rparr>,
        scope := Some SyncScope\<rparr>"
      by (simp add: start_def)
    then show ?thesis
      by (intro futures_inv_new_executor [OF assms(1)]) (simp_all add: concurrent_start_sync_hook_def)
  qed
next
  case ExitScope
  with assms(2) show ?thesis
    by (intro futures_inv_frame [OF assms(1)])
       (auto simp: exit_scope_def start_finally_def shutdown_executor_def Let_def
        split: option.splits if_splits)
next
  case (Submit key call)
  with assms(2) show ?thesis
    by (intro futures_inv_frame [OF assms(1)])
       (auto simp: concurrent_submit_def start_soon_def Let_def
        split: option.splits if_splits)
next
  case (SubmitSync key call)
  show ?thesis
  proof (cases "concurrent_submit_sync w key call")
    case (Inl p)
    then have "w' = w"
      using assms(2) SubmitSync
      by (auto simp: concurrent_submit_sync_def executor_submit_def Let_def
          split: option.splits if_splits)
    with assms(1) show ?thesis by simp
  next
    case (Inr w1)
    then obtain ex where ex: "executor (runner w) = Some ex"
      and st: "started (runner w)" and ns: "\<not> shutdown ex"
      by (auto simp: concurrent_submit_sync_def executor_submit_def Let_def
          split: option.splits if_splits)
    from Inr assms(2) SubmitSync have "w' = w\<lparr>runner := (runner w)\<lparr>
        executor := Some (ThreadPoolExecutor False (work_queue ex @ [(length (heap w), key, call)])),
        futures := AList.update key (length (heap w)) (futures (runner w))\<rparr>,
       heap := heap w @ [False]\<rparr>"
      by (simp add: concurrent_submit_sync_ready [OF st ex ns])
    then show ?thesis by (rule futures_inv_submit_sync [OF assms(1) ex])
  qed
next
  case (Wait key timeout waited)
  with assms show ?thesis by (auto split: awaited.splits)
next
  case (WaitSync key timeout waited)
  with assms show ?thesis by (auto split: awaited.splits)
next
  case (TaskCompletes i)
  with assms(2) show ?thesis
    by (intro futures_inv_frame [OF assms(1)])
       (auto simp: task_completes_def run_and_store_result_def Let_def update_conv'
        split: option.splits if_splits prod.splits)
next
  case (WorkCompletes i)
  with assms(2) obtain ex fut key call where "executor (runner w) = Some ex"
    and "i < length (work_queue ex)" and "work_queue ex ! i = (fut, key, call)"
    by (cases "executor (runner w)")
       (auto simp: work_completes_def split: if_splits, metis prod_cases3)
  then show ?thesis
    using assms WorkCompletes by (auto intro: futures_inv_work_completes)
next
  case RoundTrip
  with assms show ?thesis
    by (auto simp: futures_inv_def unpickled_eq)
qed


lemma reachable_inv_init: "reachable_inv init_world"
  by (simp add: reachable_inv_def resources_inv_def signals_inv_def futures_inv_def
      init_world_def concurrent_init_def Let_def)

lemma reachable_inv_step: "reachable_inv w \<Longrightarrow> step w ev = Some w' \<Longrightarrow> reachable_inv w'"
  unfolding reachable_inv_def
  using resources_inv_step signals_inv_step futures_inv_step by blast

lemma reachable_inv_exec: "reachable_inv w \<Longrightarrow> exec w evs = Some w' \<Longrightarrow> reachable_inv w'"
proof (induction evs arbitrary: w)
  case Nil
  then show ?case by simp
next
  case (Cons ev evs)
  from Cons.prems(2) obtain w1 where s: "step w ev = Some w1" and e: "exec w1 evs = Some w'"
    by (auto split: option.splits)
  from Cons.prems(1) s have "reachable_inv w1" by (rule reachable_inv_step)
  then show ?case using e by (rule Cons.IH)
qed

text \<open>What a step keeps.\<close>

lemma signal_kept_step:
  assumes "step w ev = Some w'" and "map_of (result_events (runner w)) k \<noteq> None"
  shows "map_of (result_events (runner w')) k \<noteq> None"
proof (cases ev)
  case Start
  with assms show ?thesis
    by (auto simp: start_def concurrent_start_hook_def split: if_splits)
next
  case StartSync
  with assms show ?thesis
    by (auto simp: start_def concurrent_start_sync_hook_def split: if_splits)
next
  case ExitScope
  with assms show ?thesis
    by (auto simp: exit_scope_def start_finally_def Let_def split: option.splits if_splits)
next
  case (Submit key call)
  with assms show ?thesis
    by (auto simp: concurrent_submit_def start_soon_def Let_def update_conv'
        split: option.splits if_splits)
next
  case (SubmitSync key call)
  with assms show ?thesis
    by (auto simp: concurrent_submit_sync_def executor_submit_def Let_def
        split: option.splits if_splits)
next
  case (Wait key timeout waited)
  with assms show ?thesis by (auto split: awaited.splits)
next
  case (WaitSync key timeout waited)
  with assms show ?thesis by (auto split: awaited.splits)
next
  case (TaskCompletes i)
  with assms show ?thesis
    by (auto simp: task_completes_def run_and_store_result_def Let_def update_conv'
        split: option.splits if_splits prod.splits)
next
  case (WorkCompletes i)
  with assms show ?thesis
    by (auto simp: work_completes_def run_and_store_result_sync_def Let_def
        split: option.splits if_splits prod.splits)
next
  case RoundTrip
  with assms show ?thesis by (auto simp: unpickled_eq)
qed

lemma live_kept_step:
  assumes "step w ev = Some w'" and "ev \<noteq> RoundTrip"
  shows "(task_group (runner w) \<noteq> None \<longrightarrow> task_group (runner w') \<noteq> None) \<and>
         (executor (runner w) \<noteq> None \<longrightarrow> executor (runner w') \<noteq> None) \<and>
         (map_of (futures (runner w)) k \<noteq> None \<longrightarrow> map_of (futures (runner w')) k \<noteq> None)"
proof (cases ev)
  case Start
  with assms show ?thesis
    by (auto simp: start_def concurrent_start_hook_def split: if_splits)
next
  case StartSync
  with assms show ?thesis
    by (auto simp: start_def concurrent_start_sync_hook_def split: if_splits)
next
  case ExitScope
  with assms show ?thesis
    by (auto simp: exit_scope_def start_finally_def Let_def split: option.splits if_splits)
next
  case (Submit key call)
  with assms show ?thesis
    by (auto simp: concurrent_submit_def start_soon_def Let_def
        split: option.splits if_splits)
next
  case (SubmitSync key call)
  with assms show ?thesis
    by (auto simp: concurrent_submit_sync_def executor_submit_def Let_def update_conv'
        split: option.splits if_splits)
next
  case (Wait key timeout waited)
  with assms show ?thesis by (auto split: awaited.splits)
next
  case (WaitSync key timeout waited)
  with assms show ?thesis by (auto split: awaited.splits)
next
  case (TaskCompletes i)
  with assms show ?thesis
    by (auto simp: task_completes_def run_and_store_result_def Let_def
        split: option.splits if_splits prod.splits)
next
  case (WorkCompletes i)
  with assms show ?thesis
    by (auto simp: work_completes_def run_and_store_result_sync_def Let_def
        split: option.splits if_splits prod.splits)
next
  case RoundTrip
  with assms show ?thesis by simp
qed

lemma no_future_kept_step:
  assumes "step w ev = Some w'" and "\<forall>c. ev \<noteq> SubmitSync k c"
    and "map_of (futures (runner w)) k = None"
  shows "map_of (futures (runner w')) k = None"
proof (cases ev)
  case Start
  with assms show ?thesis
    by (auto simp: start_def concurrent_start_hook_def split: if_splits)
next
  case StartSync
  with assms show ?thesis
    by (auto simp: start_def concurrent_start_sync_hook_def split: if_splits)
next
  case ExitScope
  with assms show ?thesis
    by (auto simp: exit_scope_def start_finally_def Let_def split: option.splits if_splits)
next
  case (Submit key call)
  with assms show ?thesis
    by (auto simp: concurrent_submit_def start_soon_def Let_def
        split: option.splits if_splits)
next
  case (SubmitSync key call)
  with assms have "key \<noteq> k" by auto
  with SubmitSync assms show ?thesis
    by (auto simp: concurrent_submit_sync_def executor_submit_def Let_def update_conv'
        split: option.splits if_splits)
next
  case (Wait key timeout waited)
  with assms show ?thesis by (auto split: awaited.splits)
next
  case (WaitSync key timeout waited)
  with assms show ?thesis by (auto split: awaited.splits)
next
  case (TaskCompletes i)
  with assms show ?thesis
    by (auto simp: task_completes_def run_and_store_result_def Let_def
        split: option.splits if_splits prod.splits)
next
  case (WorkCompletes i)
  with assms show ?thesis
    by (auto simp: work_completes_def run_and_store_result_sync_def Let_def
        split: option.splits if_splits prod.splits)
next
  case RoundTrip
  with assms show ?thesis by (auto simp: unpickled_eq)
qed

lemma signal_kept_exec:
  "exec w evs = Some w' \<Longrightarrow> map_of (result_events (runner w)) k \<noteq> None \<Longrightarrow>
   map_of (result_events (runner w')) k \<noteq> None"
proof (induction evs arbitrary: w)
  case Nil
  then show ?case by simp
next
  case (Cons ev evs)
  from Cons.prems(1) obtain w1 where s: "step w ev = Some w1" and e: "exec w1 evs = Some w'"
    by (auto split: option.splits)
  from s Cons.prems(2) have "map_of (result_events (runner w1)) k \<noteq> None"
    by (rule signal_kept_step)
  with e show ?case by (rule Cons.IH)
qed

lemma live_kept_exec:
  "exec w evs = Some w' \<Longrightarrow> RoundTrip \<notin> set evs \<Longrightarrow>
   (task_group (runner w) \<noteq> None \<longrightarrow> task_group (runner w') \<noteq> None) \<and>
   (executor (runner w) \<noteq> None \<longrightarrow> executor (runner w') \<noteq> None) \<and>
   (map_of (futures (runner w)) k \<noteq> None \<longrightarrow> map_of (futures (runner w')) k \<noteq> None)"
proof (induction evs arbitrary: w)
  case Nil
  then show ?case by simp
next
  case (Cons ev evs)
  from Cons.prems(1) obtain w1 where s: "step w ev = Some w1" and e: "exec w1 evs = Some w'"
    by (auto split: option.splits)
  from Cons.prems(2) have ne: "ev \<noteq> RoundTrip" and rest: "RoundTrip \<notin> set evs" by auto
  from live_kept_step [OF s ne, of k] Cons.IH [OF e rest] show ?case by blast
qed

lemma no_future_kept_exec:
  "exec w evs = Some w' \<Longrightarrow> \<forall>c. SubmitSync k c \<notin> set evs \<Longrightarrow>
   map_of (futures (runner w)) k = None \<Longrightarrow> map_of (futures (runner w')) k = None"
proof (induction evs arbitrary: w)
  case Nil
  then show ?case by simp
next
  case (Cons ev evs)
  from Cons.prems(1) obtain w1 where s: "step w ev = Some w1" and e: "exec w1 evs = Some w'"
    by (auto split: option.splits)
  from Cons.prems(2) have ne: "\<forall>c. ev \<noteq> SubmitSync k c"
    and rest: "\<forall>c. SubmitSync k c \<notin> set evs" by auto
  from s ne Cons.prems(3) have "map_of (futures (runner w1)) k = None"
    by (rule no_future_kept_step)
  with e rest show ?case by (rule Cons.IH)
qed

text \<open>The wait in a world that satisfies the invariants.\<close>

lemma wait_in_reachable:
  assumes inv: "reachable_inv w" and tg: "task_group (runner w) \<noteq> None"
    and present: "map_of (futures (runner w)) key \<noteq> None \<or>
                  map_of (result_events (runner w)) key \<noteq> None"
  shows "(map_of (futures (runner w)) key \<noteq> None \<longrightarrow>
            concurrent_wait w key timeout waited = concurrent_wait_sync w key timeout waited) \<and>
         (map_of (futures (runner w)) key = None \<longrightarrow>
            concurrent_wait w key timeout waited = get_run_result (runner w) key timeout waited) \<and>
         (concurrent_wait w key timeout waited = Blocked \<or>
          (\<exists>r. concurrent_wait w key timeout waited = Returned (Some r) \<and>
               map_of (results (runner w)) key = Some r) \<or>
          (concurrent_wait w key timeout waited = Returned None \<and> expired timeout waited))"
proof (cases "map_of (futures (runner w)) key")
  case None
  with present obtain b where ev: "map_of (result_events (runner w)) key = Some b" by auto
  have route: "concurrent_wait w key timeout waited = get_run_result (runner w) key timeout waited"
    using tg None by (auto simp: concurrent_wait_def)
  show ?thesis
  proof (cases b)
    case True
    with ev inv obtain r where "map_of (results (runner w)) key = Some r"
      by (auto simp: reachable_inv_def signals_inv_def)
    with ev True None route show ?thesis by (simp add: get_run_result_def)
  next
    case False
    with ev None route show ?thesis by (simp add: get_run_result_def)
  qed
next
  case (Some a)
  then have "futures (runner w) \<noteq> []" by auto
  with inv obtain ex where ex: "executor (runner w) = Some ex"
    by (auto simp: reachable_inv_def resources_inv_def)
  have route: "concurrent_wait w key timeout waited = concurrent_wait_sync w key timeout waited"
    using tg Some by (auto simp: concurrent_wait_def)
  from inv have finv: "futures_inv w" by (simp add: reachable_inv_def)
  show ?thesis
  proof (cases "future_done (heap w) a")
    case True
    then have "heap w ! a" by (simp add: future_done_def)
    with futures_inv_done [OF finv Some] obtain r where "map_of (results (runner w)) key = Some r"
      by auto
    with True Some ex route show ?thesis by (simp add: concurrent_wait_sync_def)
  next
    case False
    with Some ex route show ?thesis
      by (cases "map_of (results (runner w)) key") (simp_all add: concurrent_wait_sync_def)
  qed
qed


section \<open>Waiting on the concurrent runner\<close>




text \<open>
  Claim C10. Take a run from a new runner in which \<open>submit\<close> accepts a key that
  \<open>submit_sync\<close> is never given, with no serialization round trip after it. Then
  \<open>wait_sync\<close> on the key raises \<open>KeyError\<close>, while \<open>wait\<close> on the key goes to
  \<open>_get_run_result\<close> and does not raise.
\<close>

theorem wait_sync_cooperative_key:
  assumes run1: "exec init_world evs1 = Some w1"
    and accepted: "concurrent_submit (runner w1) key call = Inr s"
    and run2: "exec (w1\<lparr>runner := s\<rparr>) evs2 = Some w"
    and never_sync: "\<forall>c. SubmitSync key c \<notin> set (evs1 @ evs2)"
    and never_serialized: "RoundTrip \<notin> set evs2"
  shows "concurrent_wait_sync w key timeout waited = Raised (KeyError key) \<and>
         concurrent_wait w key timeout waited = get_run_result (runner w) key timeout waited \<and>
         (\<forall>e. concurrent_wait w key timeout waited \<noteq> Raised e)"
proof -
  let ?w2 = "w1\<lparr>runner := s\<rparr>"
  have s: "step w1 (Submit key call) = Some ?w2"
    using accepted by simp
  have inv1: "reachable_inv w1"
    using reachable_inv_init run1 by (rule reachable_inv_exec)
  then have inv2: "reachable_inv ?w2" using s by (rule reachable_inv_step)
  then have inv: "reachable_inv w" using run2 by (rule reachable_inv_exec)
  from accepted have tg2: "task_group (runner ?w2) \<noteq> None"
    and ev2: "map_of (result_events (runner ?w2)) key \<noteq> None"
    by (auto simp: concurrent_submit_def start_soon_def Let_def update_conv'
        split: option.splits if_splits)
  from inv2 tg2 have ex2: "executor (runner ?w2) \<noteq> None"
    by (simp add: reachable_inv_def resources_inv_def)
  from live_kept_exec [OF run2 never_serialized, of key] tg2 ex2
  have tg: "task_group (runner w) \<noteq> None" and ex: "executor (runner w) \<noteq> None"
    by blast+
  from signal_kept_exec [OF run2 ev2] have ev: "map_of (result_events (runner w)) key \<noteq> None" .
  have "map_of (futures (runner init_world)) key = None"
    by (simp add: init_world_def concurrent_init_def Let_def)
  moreover from never_sync have "\<forall>c. SubmitSync key c \<notin> set (evs1 @ Submit key call # evs2)"
    by auto
  moreover have "exec init_world (evs1 @ Submit key call # evs2) = Some w"
    using run1 s run2
  proof -
    have "\<And>u. exec u evs1 = Some w1 \<Longrightarrow> exec u (evs1 @ Submit key call # evs2) = Some w"
      by (induction evs1) (use s run2 in \<open>auto split: option.splits\<close>)
    with run1 show ?thesis by blast
  qed
  ultimately have nf: "map_of (futures (runner w)) key = None"
    using no_future_kept_exec by blast
  from ex nf have 1: "concurrent_wait_sync w key timeout waited = Raised (KeyError key)"
    by (auto simp: concurrent_wait_sync_def)
  from wait_in_reachable [OF inv tg, of key timeout waited] ev nf
  have 2: "concurrent_wait w key timeout waited = get_run_result (runner w) key timeout waited"
    and 3: "concurrent_wait w key timeout waited = Blocked \<or>
          (\<exists>r. concurrent_wait w key timeout waited = Returned (Some r) \<and>
               map_of (results (runner w)) key = Some r) \<or>
          (concurrent_wait w key timeout waited = Returned None \<and> expired timeout waited)"
    by blast+
  from 3 have "\<forall>e. concurrent_wait w key timeout waited \<noteq> Raised e" by auto
  with 1 2 show ?thesis by blast
qed



theorem wait_sync_cooperative_key_witness:
  "exec init_world [Start] = Some started_world \<and>
   concurrent_submit (runner started_world) 1 call_boom = Inr (runner cooperative_world) \<and>
   exec (started_world\<lparr>runner := runner cooperative_world\<rparr>) [SubmitSync 2 call_boom] =
     Some faulty_world \<and>
   (\<forall>c. SubmitSync 1 c \<notin> set ([Start] @ [SubmitSync 2 call_boom])) \<and>
   RoundTrip \<notin> set [SubmitSync 2 call_boom] \<and>
   concurrent_wait_sync faulty_world 1 None 0 = Raised (KeyError 1) \<and>
   concurrent_wait faulty_world 1 None 0 = get_run_result (runner faulty_world) 1 None 0"
proof -
  have r1: "exec init_world [Start] = Some started_world"
    by (simp add: init_world_def started_world_def start_def concurrent_init_def base_init_def
        Let_def)
  have acc: "concurrent_submit (runner started_world) 1 call_boom = Inr (runner cooperative_world)"
    by (simp add: started_world_def cooperative_world_def concurrent_submit_def
        concurrent_start_hook_def concurrent_init_def base_init_def start_soon_def Let_def)
  have r2: "exec (started_world\<lparr>runner := runner cooperative_world\<rparr>) [SubmitSync 2 call_boom] =
     Some faulty_world"
    by (simp add: faulty_world_def cooperative_world_def started_world_def
        concurrent_start_hook_def concurrent_init_def base_init_def
        concurrent_submit_sync_def executor_submit_def Let_def)
  have ns: "\<forall>c. SubmitSync 1 c \<notin> set ([Start] @ [SubmitSync 2 call_boom])" by simp
  have nr: "RoundTrip \<notin> set [SubmitSync 2 call_boom]" by simp
  from wait_sync_cooperative_key [OF r1 acc r2 ns nr, of None 0] r1 acc r2 ns nr
  show ?thesis by blast
qed


section \<open>The Result Table\<close>

lemma remove_nth_split:
  assumes "i < length xs"
  shows "\<exists>ys zs. xs = ys @ xs ! i # zs \<and> remove_nth i xs = ys @ zs"
proof (intro exI conjI)
  show "xs = take i xs @ xs ! i # drop (Suc i) xs"
    using assms by (rule id_take_nth_drop)
  show "remove_nth i xs = take i xs @ drop (Suc i) xs"
    by (simp add: remove_nth_def)
qed

lemma pending_remove_left:
  assumes d: "distinct (A @ E)" and i: "i < length A"
  shows "distinct (remove_nth i A @ E) \<and>
         set (remove_nth i A @ E) \<subseteq> set (A @ E) - {A ! i} \<and>
         A ! i \<in> set (A @ E)"
proof -
  define a where "a = A ! i"
  from remove_nth_split [OF i] obtain ys zs where A: "A = ys @ a # zs"
    and R: "remove_nth i A = ys @ zs" unfolding a_def by blast
  from d have "distinct (ys @ a # zs @ E)" unfolding A by simp
  then have "distinct (ys @ zs @ E) \<and> set (ys @ zs @ E) \<subseteq> set (ys @ a # zs @ E) - {a} \<and>
             a \<in> set (ys @ a # zs @ E)"
    by auto
  then have "distinct (remove_nth i A @ E) \<and>
         set (remove_nth i A @ E) \<subseteq> set (A @ E) - {a} \<and> a \<in> set (A @ E)"
    unfolding R unfolding A by simp
  then show ?thesis by (simp add: a_def)
qed

lemma pending_remove_right:
  assumes d: "distinct (A @ E)" and i: "i < length E"
  shows "distinct (A @ remove_nth i E) \<and>
         set (A @ remove_nth i E) \<subseteq> set (A @ E) - {E ! i} \<and>
         E ! i \<in> set (A @ E)"
proof -
  define a where "a = E ! i"
  from remove_nth_split [OF i] obtain ys zs where E: "E = ys @ a # zs"
    and R: "remove_nth i E = ys @ zs" unfolding a_def by blast
  from d have "distinct (A @ ys @ a # zs)" unfolding E by simp
  then have "distinct (A @ ys @ zs) \<and> set (A @ ys @ zs) \<subseteq> set (A @ ys @ a # zs) - {a} \<and>
             a \<in> set (A @ ys @ a # zs)"
    by auto
  then have "distinct (A @ remove_nth i E) \<and>
         set (A @ remove_nth i E) \<subseteq> set (A @ E) - {a} \<and> a \<in> set (A @ E)"
    unfolding R unfolding E by simp
  then show ?thesis by (simp add: a_def)
qed

lemma map_remove_nth: "map f (remove_nth i xs) = remove_nth i (map f xs)"
  by (simp add: remove_nth_def take_map drop_map)

lemma table_invD:
  assumes "table_inv U s"
  shows "distinct (pending s)" and "distinct (map fst (results s))"
    and "\<And>k. k \<in> set (pending s) \<Longrightarrow> k \<notin> fst ` set (results s)"
    and "\<And>k. k \<in> set (pending s) \<Longrightarrow> k \<in> U"
    and "\<And>k. k \<in> fst ` set (results s) \<Longrightarrow> k \<in> U"
  using assms unfolding table_inv_def by blast+

lemma table_invI:
  assumes "distinct (pending s)" and "distinct (map fst (results s))"
    and "\<And>k. k \<in> set (pending s) \<Longrightarrow> k \<notin> fst ` set (results s)"
    and "\<And>k. k \<in> set (pending s) \<Longrightarrow> k \<in> U"
    and "\<And>k. k \<in> fst ` set (results s) \<Longrightarrow> k \<in> U"
  shows "table_inv U s"
  using assms unfolding table_inv_def by blast

lemma table_inv_same:
  assumes inv: "table_inv U s" and r: "results s' = results s"
    and p: "set (pending s') \<subseteq> set (pending s)" and d: "distinct (pending s')"
    and U: "U \<subseteq> U'"
  shows "table_inv U' s' \<and> prefix (results s) (results s')"
proof
  show "table_inv U' s'"
  proof (rule table_invI)
    show "distinct (pending s')" by (rule d)
    show "distinct (map fst (results s'))" using table_invD(2) [OF inv] r by simp
    fix k assume "k \<in> set (pending s')"
    with p have k: "k \<in> set (pending s)" by blast
    show "k \<notin> fst ` set (results s')" using table_invD(3) [OF inv k] r by simp
    show "k \<in> U'" using table_invD(4) [OF inv k] U by blast
  next
    fix k assume "k \<in> fst ` set (results s')"
    then have "k \<in> fst ` set (results s)" using r by simp
    then show "k \<in> U'" using table_invD(5) [OF inv] U by blast
  qed
  show "prefix (results s) (results s')" using r by simp
qed

lemma table_inv_add:
  assumes inv: "table_inv U s" and r: "results s' = results s"
    and p: "set (pending s') \<subseteq> insert k (set (pending s))" and d: "distinct (pending s')"
    and fresh: "k \<notin> U"
  shows "table_inv (insert k U) s' \<and> prefix (results s) (results s')"
proof
  show "table_inv (insert k U) s'"
  proof (rule table_invI)
    show "distinct (pending s')" by (rule d)
    show "distinct (map fst (results s'))" using table_invD(2) [OF inv] r by simp
    fix j assume "j \<in> set (pending s')"
    with p have j: "j = k \<or> j \<in> set (pending s)" by blast
    from fresh table_invD(5) [OF inv] have "k \<notin> fst ` set (results s)" by blast
    with j table_invD(3) [OF inv] show "j \<notin> fst ` set (results s')" unfolding r by blast
    from j table_invD(4) [OF inv] show "j \<in> insert k U" by blast
  next
    fix j assume "j \<in> fst ` set (results s')"
    then have "j \<in> fst ` set (results s)" using r by simp
    then show "j \<in> insert k U" using table_invD(5) [OF inv] by blast
  qed
  show "prefix (results s) (results s')" using r by simp
qed

lemma table_inv_complete:
  assumes inv: "table_inv U s" and k: "k \<in> set (pending s)"
    and r: "results s' = AList.update k v (results s)"
    and p: "set (pending s') \<subseteq> set (pending s) - {k}" and d: "distinct (pending s')"
  shows "table_inv U s' \<and> prefix (results s) (results s')"
proof
  from table_invD(3) [OF inv k] have fresh: "k \<notin> fst ` set (results s)" .
  then have r': "results s' = results s @ [(k, v)]"
    using r by (simp add: update_fresh)
  have keys: "fst ` set (results s') = insert k (fst ` set (results s))"
    by (simp add: r')
  show "table_inv U s'"
  proof (rule table_invI)
    show "distinct (pending s')" by (rule d)
    show "distinct (map fst (results s'))"
      using table_invD(2) [OF inv] fresh by (simp add: r')
    fix j assume "j \<in> set (pending s')"
    with p have j: "j \<in> set (pending s)" and jk: "j \<noteq> k" by blast+
    from table_invD(3) [OF inv j] jk show "j \<notin> fst ` set (results s')"
      unfolding keys by blast
    from table_invD(4) [OF inv j] show "j \<in> U" .
  next
    fix j assume "j \<in> fst ` set (results s')"
    then have "j = k \<or> j \<in> fst ` set (results s)" unfolding keys by blast
    then show "j \<in> U" using table_invD(4) [OF inv k] table_invD(5) [OF inv] by blast
  qed
  show "prefix (results s) (results s')" by (simp add: r')
qed

lemma submitted_append: "submitted (xs @ ys) = submitted xs @ submitted ys"
  by (induction xs rule: submitted.induct) simp_all


lemma table_inv_step:
  assumes inv: "table_inv U (runner w)" and s: "step w ev = Some w'"
    and new: "set (submitted [ev]) \<inter> U = {}"
  shows "table_inv (U \<union> set (submitted [ev])) (runner w') \<and>
         prefix (results (runner w)) (results (runner w'))"
proof (cases ev)
  case Start
  from inv have d: "distinct (pending (runner w))" by (simp add: table_inv_def)
  show ?thesis
  proof (cases "started (runner w)")
    case True
    with Start s have "w' = w" by (simp add: start_def)
    with d Start show ?thesis by (intro table_inv_same [OF inv]) simp_all
  next
    case False
    with Start s show ?thesis
      by (intro table_inv_same [OF inv])
         (auto simp: start_def concurrent_start_hook_def pending_def)
  qed
next
  case StartSync
  from inv have d: "distinct (pending (runner w))" by (simp add: table_inv_def)
  from StartSync s d show ?thesis
    by (intro table_inv_same [OF inv])
       (auto simp: start_def concurrent_start_sync_hook_def pending_def
        split: if_splits option.splits)
next
  case ExitScope
  with s have e: "pending (runner w) = []" and "scope w \<noteq> None"
    by (auto simp: exit_scope_def split: option.splits if_splits)
  with ExitScope s have "pending (runner w') = []"
    by (auto simp: exit_scope_def start_finally_def pending_def Let_def
        close_task_group_def shutdown_executor_def split: option.splits if_splits)
  moreover from ExitScope s have "results (runner w') = results (runner w)"
    by (auto simp: exit_scope_def start_finally_def Let_def split: option.splits if_splits)
  ultimately show ?thesis
    using ExitScope by (intro table_inv_same [OF inv]) simp_all
next
  case (Submit key call)
  from inv have d: "distinct (pending (runner w))"
    and sub: "set (pending (runner w)) \<subseteq> U" by (simp_all add: table_inv_def)
  from Submit new have fresh: "key \<notin> U" by simp
  with sub have nk: "key \<notin> set (pending (runner w))" by blast
  from Submit s have r: "results (runner w') = results (runner w)"
    by (auto simp: concurrent_submit_def start_soon_def Let_def split: option.splits if_splits)
  have p': "pending (runner w') = pending (runner w) \<or>
            (\<exists>A E. pending (runner w) = A @ E \<and> pending (runner w') = A @ key # E)"
  proof (cases "concurrent_submit (runner w) key call")
    case (Inl p)
    with Submit s have "task_group (runner w') = task_group (runner w)"
      and "executor (runner w') = executor (runner w)"
      by (auto simp: concurrent_submit_def start_soon_def Let_def
          split: option.splits if_splits)
    then show ?thesis by (simp add: pending_def)
  next
    case (Inr s1)
    then obtain tg where st: "started (runner w)" and tg: "task_group (runner w) = Some tg"
      and ac: "active tg"
      by (auto simp: concurrent_submit_def start_soon_def Let_def
          split: option.splits if_splits)
    from Submit s have "w' = w\<lparr>runner := (runner w)\<lparr>
          result_events := AList.update key False (result_events (runner w)),
          task_group := Some (TaskGroup True (children tg @ [(key, call)]))\<rparr>\<rparr>"
      by (simp add: concurrent_submit_ready [OF st tg ac])
    then have "pending (runner w') =
        map fst (children tg) @ key #
        (case executor (runner w) of None \<Rightarrow> []
         | Some ex \<Rightarrow> map (fst \<circ> snd) (work_queue ex))"
      by (simp add: pending_def)
    moreover have "pending (runner w) =
        map fst (children tg) @
        (case executor (runner w) of None \<Rightarrow> []
         | Some ex \<Rightarrow> map (fst \<circ> snd) (work_queue ex))"
      using tg by (simp add: pending_def)
    ultimately show ?thesis by blast
  qed
  from p' d nk have d': "distinct (pending (runner w'))"
    and sub': "set (pending (runner w')) \<subseteq> insert key (set (pending (runner w)))"
    by auto
  from table_inv_add [OF inv r sub' d' fresh] Submit show ?thesis by simp
next
  case (SubmitSync key call)
  from inv have d: "distinct (pending (runner w))"
    and sub: "set (pending (runner w)) \<subseteq> U" by (simp_all add: table_inv_def)
  from SubmitSync new have fresh: "key \<notin> U" by simp
  with sub have nk: "key \<notin> set (pending (runner w))" by blast
  from SubmitSync s have r: "results (runner w') = results (runner w)"
    by (auto simp: concurrent_submit_sync_def executor_submit_def Let_def
        split: option.splits if_splits)
  have p': "pending (runner w') = pending (runner w) \<or>
            pending (runner w') = pending (runner w) @ [key]"
  proof (cases "concurrent_submit_sync w key call")
    case (Inl p)
    with SubmitSync s have "w' = w"
      by (auto simp: concurrent_submit_sync_def executor_submit_def Let_def
          split: option.splits if_splits)
    then show ?thesis by simp
  next
    case (Inr w1)
    then obtain ex where st: "started (runner w)" and ex: "executor (runner w) = Some ex"
      and ns: "\<not> shutdown ex"
      by (auto simp: concurrent_submit_sync_def executor_submit_def Let_def
          split: option.splits if_splits)
    from SubmitSync s have "w' = w\<lparr>runner := (runner w)\<lparr>
        executor := Some (ThreadPoolExecutor False (work_queue ex @ [(length (heap w), key, call)])),
        futures := AList.update key (length (heap w)) (futures (runner w))\<rparr>,
       heap := heap w @ [False]\<rparr>"
      by (simp add: concurrent_submit_sync_ready [OF st ex ns])
    then have "pending (runner w') = pending (runner w) @ [key]"
      using ex by (simp add: pending_def)
    then show ?thesis ..
  qed
  from p' d nk have d': "distinct (pending (runner w'))"
    and sub': "set (pending (runner w')) \<subseteq> insert key (set (pending (runner w)))"
    by auto
  from table_inv_add [OF inv r sub' d' fresh] SubmitSync show ?thesis by simp
next
  case (Wait key timeout waited)
  from inv have d: "distinct (pending (runner w))" by (simp add: table_inv_def)
  from Wait s d show ?thesis
    by (intro table_inv_same [OF inv]) (auto split: awaited.splits)
next
  case (WaitSync key timeout waited)
  from inv have d: "distinct (pending (runner w))" by (simp add: table_inv_def)
  from WaitSync s d show ?thesis
    by (intro table_inv_same [OF inv]) (auto split: awaited.splits)
next
  case (TaskCompletes i)
  from inv have d: "distinct (pending (runner w))" by (simp add: table_inv_def)
  from TaskCompletes s obtain tg where tg: "task_group (runner w) = Some tg"
    and i: "i < length (children tg)"
    by (auto simp: task_completes_def split: option.splits if_splits)
  obtain key call where item: "children tg ! i = (key, call)" by (cases "children tg ! i")
  define A where "A = map fst (children tg)"
  define E where "E = (case executor (runner w) of None \<Rightarrow> []
            | Some ex \<Rightarrow> map (fst \<circ> snd) (work_queue ex))"
  have p: "pending (runner w) = A @ E" using tg by (simp add: pending_def A_def E_def)
  have iA: "i < length A" and key: "A ! i = key" using i item by (simp_all add: A_def)
  from TaskCompletes s tg i item
  obtain v where r: "results (runner w') = AList.update key v (results (runner w))"
    and tg': "task_group (runner w') = Some (TaskGroup (active tg) (remove_nth i (children tg)))"
    and ex': "executor (runner w') = executor (runner w)"
    by (auto simp: task_completes_def run_and_store_result_def Let_def split: option.splits)
  have p': "pending (runner w') = remove_nth i A @ E"
    using tg' ex' by (simp add: pending_def A_def E_def map_remove_nth)
  from d have dAE: "distinct (A @ E)" by (simp add: p)
  from pending_remove_left [OF dAE iA]
  have d': "distinct (pending (runner w'))"
    and sub': "set (pending (runner w')) \<subseteq> set (pending (runner w)) - {key}"
    and k_in: "key \<in> set (pending (runner w))"
    by (simp_all add: p p' key)
  from TaskCompletes table_inv_complete [OF inv k_in r sub' d'] show ?thesis by simp
next
  case (WorkCompletes i)
  from inv have d: "distinct (pending (runner w))" by (simp add: table_inv_def)
  from WorkCompletes s obtain ex where ex: "executor (runner w) = Some ex"
    and i: "i < length (work_queue ex)"
    by (auto simp: work_completes_def split: option.splits if_splits)
  obtain fut key call where item: "work_queue ex ! i = (fut, key, call)"
    by (cases "work_queue ex ! i")
  define A where "A = (case task_group (runner w) of None \<Rightarrow> []
            | Some tg \<Rightarrow> map fst (children tg))"
  define E where "E = map (fst \<circ> snd) (work_queue ex)"
  have p: "pending (runner w) = A @ E" using ex by (simp add: pending_def A_def E_def)
  have iE: "i < length E" and key: "E ! i = key" using i item by (simp_all add: E_def)
  from WorkCompletes s have w'_eq: "w' = w\<lparr>runner := (runner w)\<lparr>
        executor := Some (ThreadPoolExecutor (shutdown ex) (remove_nth i (work_queue ex))),
        results := AList.update key
          (case call () of Inr r \<Rightarrow> r | Inl e \<Rightarrow> exception_to_crashed_state e)
          (results (runner w))\<rparr>,
       heap := (heap w)[fut := True]\<rparr>"
    using work_completes_eq [OF ex i item] by simp
  then have r: "results (runner w') = AList.update key
          (case call () of Inr r \<Rightarrow> r | Inl e \<Rightarrow> exception_to_crashed_state e)
          (results (runner w))"
    and p': "pending (runner w') = A @ remove_nth i E"
    by (simp_all add: pending_def A_def E_def map_remove_nth)
  from d have dAE: "distinct (A @ E)" by (simp add: p)
  from pending_remove_right [OF dAE iE]
  have d': "distinct (pending (runner w'))"
    and sub': "set (pending (runner w')) \<subseteq> set (pending (runner w)) - {key}"
    and k_in: "key \<in> set (pending (runner w))"
    by (simp_all add: p p' key)
  from WorkCompletes table_inv_complete [OF inv k_in r sub' d'] show ?thesis by simp
next
  case RoundTrip
  with s show ?thesis
    by (intro table_inv_same [OF inv]) (auto simp: unpickled_eq pending_def)
qed



lemma table_inv_exec:
  assumes "table_inv U (runner w)" and "exec w evs = Some w'"
    and "distinct (submitted evs)" and "set (submitted evs) \<inter> U = {}"
  shows "table_inv (U \<union> set (submitted evs)) (runner w') \<and>
         prefix (results (runner w)) (results (runner w'))"
  using assms
proof (induction evs arbitrary: w U)
  case Nil
  then show ?case by simp
next
  case (Cons ev evs)
  from Cons.prems(2) obtain w1 where s: "step w ev = Some w1" and e: "exec w1 evs = Some w'"
    by (auto split: option.splits)
  have sp: "submitted (ev # evs) = submitted [ev] @ submitted evs"
    using submitted_append [of "[ev]" evs] by simp
  from Cons.prems(3,4) have new: "set (submitted [ev]) \<inter> U = {}"
    and d: "distinct (submitted evs)"
    and rest: "set (submitted evs) \<inter> (U \<union> set (submitted [ev])) = {}"
    unfolding sp by auto
  from table_inv_step [OF Cons.prems(1) s new]
  have inv1: "table_inv (U \<union> set (submitted [ev])) (runner w1)"
    and pre1: "prefix (results (runner w)) (results (runner w1))" by simp_all
  from Cons.IH [OF inv1 e d rest]
  have "table_inv (U \<union> set (submitted [ev]) \<union> set (submitted evs)) (runner w')"
    and "prefix (results (runner w1)) (results (runner w'))" by simp_all
  with pre1 show ?case unfolding sp by (auto simp: Un_assoc)
qed

lemma table_inv_init: "table_inv {} (runner init_world)"
  by (simp add: table_inv_def init_world_def concurrent_init_def pending_def Let_def)

text \<open>
  Claim C7. Take a run from a new runner, of any steps (starts, scope exits, submits on
  either path, waits, completions of tasks and of work items, serialization round
  trips), in which no key is submitted twice. From any point of the run to any later
  point the Result Table only grows at its end: the earlier table is a prefix of the
  later one, so no entry is overwritten or removed, every entry read earlier is read
  unchanged later, no key has two entries, and only submitted keys have entries.
\<close>

theorem result_table_append_only:
  assumes unique_keys: "distinct (submitted (evs1 @ evs2))"
    and run1: "exec init_world evs1 = Some w1"
    and run2: "exec w1 evs2 = Some w2"
  shows "prefix (results (runner w1)) (results (runner w2)) \<and>
         distinct (map fst (results (runner w2))) \<and>
         fst ` set (results (runner w2)) \<subseteq> set (submitted (evs1 @ evs2)) \<and>
         (\<forall>v. map_of (results (runner w1)) key = Some v \<longrightarrow>
              map_of (results (runner w2)) key = Some v)"
proof -
  from unique_keys have d1: "distinct (submitted evs1)" and d2: "distinct (submitted evs2)"
    and dis: "set (submitted evs2) \<inter> ({} \<union> set (submitted evs1)) = {}"
    by (auto simp: submitted_append)
  from table_inv_exec [OF table_inv_init run1 d1]
  have inv1: "table_inv ({} \<union> set (submitted evs1)) (runner w1)" by simp
  from table_inv_exec [OF inv1 run2 d2 dis]
  have inv2: "table_inv ({} \<union> set (submitted evs1) \<union> set (submitted evs2)) (runner w2)"
    and pre: "prefix (results (runner w1)) (results (runner w2))" by simp_all
  from pre obtain zs where zs: "results (runner w2) = results (runner w1) @ zs"
    by (auto simp: prefix_def)
  have keep: "\<forall>v. map_of (results (runner w1)) key = Some v \<longrightarrow>
                  map_of (results (runner w2)) key = Some v"
    by (simp add: zs map_add_Some_iff)
  from inv2 have "distinct (map fst (results (runner w2)))"
    and "fst ` set (results (runner w2)) \<subseteq> set (submitted (evs1 @ evs2))"
    by (auto simp: table_inv_def submitted_append)
  with pre keep show ?thesis by blast
qed



theorem result_table_append_only_witness:
  "distinct (submitted ([Start, Submit 1 call_boom, SubmitSync 2 call_ok, TaskCompletes 0] @
                        [WorkCompletes 0, RoundTrip])) \<and>
   (\<exists>w1 w2. exec init_world [Start, Submit 1 call_boom, SubmitSync 2 call_ok, TaskCompletes 0] =
              Some w1 \<and>
            exec w1 [WorkCompletes 0, RoundTrip] = Some w2 \<and>
            results (runner w1) = [(1, Crashed (Exc ''ValueError'' ''boom''))] \<and>
            results (runner w2) =
              [(1, Crashed (Exc ''ValueError'' ''boom'')), (2, Completed ''ok'')] \<and>
            prefix (results (runner w1)) (results (runner w2)) \<and>
            distinct (map fst (results (runner w2))))"
proof -
  have d: "distinct (submitted ([Start, Submit 1 call_boom, SubmitSync 2 call_ok, TaskCompletes 0] @
                        [WorkCompletes 0, RoundTrip]))"
    by simp
  obtain w1 where r1: "exec init_world [Start, Submit 1 call_boom, SubmitSync 2 call_ok,
        TaskCompletes 0] = Some w1"
    and t1: "results (runner w1) = [(1, Crashed (Exc ''ValueError'' ''boom''))]"
    and e1: "executor (runner w1) = Some (ThreadPoolExecutor False [(0, 2, call_ok)])"
    by (simp add: init_world_def start_def concurrent_start_hook_def concurrent_init_def
        base_init_def concurrent_submit_def concurrent_submit_sync_def start_soon_def
        executor_submit_def task_completes_def run_and_store_result_def remove_nth_def
        call_boom_def exception_to_crashed_state_def Let_def)
  obtain w2 where r2: "exec w1 [WorkCompletes 0, RoundTrip] = Some w2"
    and t2: "results (runner w2) =
              [(1, Crashed (Exc ''ValueError'' ''boom'')), (2, Completed ''ok'')]"
    using t1 e1
    by (simp add: work_completes_def run_and_store_result_sync_def remove_nth_def
        unpickled_eq call_ok_def Let_def)
  from result_table_append_only [OF d r1 r2]
  have "prefix (results (runner w1)) (results (runner w2))"
    and "distinct (map fst (results (runner w2)))" by simp_all
  with d r1 r2 t1 t2 show ?thesis by blast
qed


end
